theory Spec2Isabelle
  imports Main "HOL-Library.Sublist" "HOL-Library.Multiset" "HOL-Library.AList"
begin

section \<open>Data model\<close>

text \<open>
  The interface \<open>FileItem\<close> (\<open>@/lib/types/file\<close>) is imported by every hook but its
  declaration is not among the sources. Modelled from the spec: a node has an \<open>id\<close>, a
  full path \<open>name\<close>, a kind \<open>file | directory\<close> and an optional \<open>status\<close>; the tree
  builder adds \<open>isExpanded\<close>, \<open>isLoading\<close>, \<open>children\<close> and \<open>level\<close>. The status is
  kept as the string the hooks compare it with (\<open>"pending"\<close>, \<open>"indexed"\<close>, ...), \<open>None\<close>
  being JavaScript's \<open>undefined\<close>. The optional display fields of an item that never went
  through the tree builder are their falsy values (\<open>False\<close>, \<open>[]\<close>, \<open>0\<close>), which is
  how every read in the sources treats them.
\<close>

datatype file_type = File | Directory

datatype FileItem = FileItem
  (id_of: string) (name: string) (type_of: file_type) (status: "string option")
  (isExpanded: bool) (isLoading: bool) (children: "FileItem list") (level: nat)

text \<open>A \<open>Map<string, string>\<close>: keys in insertion order, \<open>set\<close> on a known key replaces
  its value in place (\<open>AList.update\<close>), \<open>get\<close> is \<open>map_of\<close>.\<close>

type_synonym status_map = "(string \<times> string) list"

text \<open>JavaScript's \<open>a || b\<close> on \<open>string | undefined\<close>: \<open>undefined\<close> and the empty string
  are falsy.\<close>

fun truthy :: "string option \<Rightarrow> bool" where
  "truthy None = False"
| "truthy (Some s) = (s \<noteq> [])"

definition or_else :: "string option \<Rightarrow> string option \<Rightarrow> string option" where
  "or_else a b = (if truthy a then a else b)"

text \<open>The object spread \<open>{...file, status: s}\<close>.\<close>

fun with_status :: "string option \<Rightarrow> FileItem \<Rightarrow> FileItem" where
  "with_status s (FileItem i n t _ e l c lv) = FileItem i n t s e l c lv"

section \<open>useFileTree: status fetch and merge\<close>

text \<open>The answer of \<open>listKBResourcesSafe\<close>: the promise rejects, or resolves to an object
  whose \<open>data\<close> may be missing.\<close>

datatype kb_response = Rejected | Resolved "FileItem list option"

text \<open>\<open>statusMap.set(resource.id, resource.status || "unknown")\<close> for one resource.\<close>

definition set_status :: "status_map \<Rightarrow> FileItem \<Rightarrow> status_map" where
  "set_status m resource =
     AList.update (id_of resource)
       (case or_else (status resource) (Some ''unknown'') of Some s \<Rightarrow> s | None \<Rightarrow> ''unknown'') m"

definition fetchKBStatusForFolder :: "string option \<Rightarrow> kb_response \<Rightarrow> status_map" where
  "fetchKBStatusForFolder kbId resp =
     (if \<not> truthy kbId then []
      else case resp of
        Rejected \<Rightarrow> []
      | Resolved None \<Rightarrow> []
      | Resolved (Some rs) \<Rightarrow> foldl set_status [] rs)"

text \<open>The state of the hook: the three \<open>useState\<close> sets, the \<open>["drive-files", id]\<close>
  entries of the query cache, and the log of \<open>toast.error\<close> calls (by \<open>toastId\<close>).\<close>

record tree_state =
  expandedFolders :: "string set"
  loadingFolders :: "string set"
  errorToastShown :: "string set"
  driveFiles :: "string \<rightharpoonup> FileItem list"
  toasts :: "string list"

definition merge_status :: "status_map \<Rightarrow> FileItem \<Rightarrow> FileItem" where
  "merge_status kbStatusMap file =
     with_status (or_else (map_of kbStatusMap (id_of file)) (status file)) file"

definition is_pending :: "FileItem \<Rightarrow> bool" where
  "is_pending file = (type_of file = File \<and> status file = Some ''pending'')"

definition is_error :: "FileItem \<Rightarrow> bool" where
  "is_error file = (type_of file = File \<and> status file = Some ''error'')"

record merge_result =
  updatedFiles :: "FileItem list"
  hasPending :: bool
  hasErrors :: bool

definition updateCachedFilesWithStatus ::
  "string \<Rightarrow> status_map \<Rightarrow> tree_state \<Rightarrow> merge_result \<times> tree_state" where
  "updateCachedFilesWithStatus folderId kbStatusMap st =
     (case driveFiles st folderId of
        None \<Rightarrow> (\<lparr>updatedFiles = [], hasPending = False, hasErrors = False\<rparr>, st)
      | Some cachedData \<Rightarrow>
          let updated = map (merge_status kbStatusMap) cachedData in
          (\<lparr>updatedFiles = updated,
            hasPending = list_ex is_pending updated,
            hasErrors = list_ex is_error updated\<rparr>,
           st\<lparr>driveFiles := (driveFiles st)(folderId \<mapsto> updated)\<rparr>))"

text \<open>\<open>String.prototype.split\<close> on a one-character separator, and \<open>Array.prototype.join\<close>.\<close>

fun split_on :: "char \<Rightarrow> string \<Rightarrow> string list" where
  "split_on c [] = [[]]"
| "split_on c (x # xs) =
     (if x = c then [] # split_on c xs
      else (let rs = split_on c xs in (x # hd rs) # tl rs))"

fun join_with :: "string \<Rightarrow> string list \<Rightarrow> string" where
  "join_with sep [] = []"
| "join_with sep [p] = p"
| "join_with sep (p # q # ps) = p @ sep @ join_with sep (q # ps)"

definition getFolderPath :: "FileItem list \<Rightarrow> string" where
  "getFolderPath fs =
     (case fs of
        [] \<Rightarrow> []
      | firstFile # _ \<Rightarrow> ''/'' @ join_with ''/'' (butlast (split_on CHR ''/'' (name firstFile))))"

text \<open>
  What a callback leaves on the timer queue: \<open>Some (folderPath, folderId)\<close> is
  \<open>setTimeout(() => pollFolderStatus(folderPath, folderId), POLL_INTERVAL)\<close>, \<open>None\<close> is
  no timer.
\<close>

type_synonym timer = "(string \<times> string) option"

definition POLL_INTERVAL :: int where
  "POLL_INTERVAL = 3000"

definition folder_error_toast :: "string \<Rightarrow> string" where
  "folder_error_toast folderId = ''folder-error-'' @ folderId"

text \<open>
  \<open>pollFolderStatus\<close> and \<open>toggleFolder\<close> are \<open>useCallback\<close> closures: the state
  variables they read (\<open>errorToastShown.has\<close>, \<open>expandedFolders.has\<close>) are those of the
  render that created the callback, here the snapshot \<open>seen\<close>; the updater functions
  (\<open>setErrorToastShown(prev => ...)\<close>) and the query cache act on the current state
  \<open>st\<close>. A callback of the current render is the call with \<open>seen = st\<close>. The argument
  \<open>resp\<close> is the backend's answer to the status fetch of this call.
\<close>

definition notify_errors :: "tree_state \<Rightarrow> string \<Rightarrow> bool \<Rightarrow> tree_state \<Rightarrow> tree_state" where
  "notify_errors seen folderId errs st =
     (if errs \<and> folderId \<notin> errorToastShown seen
      then st\<lparr>errorToastShown := insert folderId (errorToastShown st),
              toasts := toasts st @ [folder_error_toast folderId]\<rparr>
      else st)"

definition pollFolderStatus ::
  "string option \<Rightarrow> tree_state \<Rightarrow> kb_response \<Rightarrow> string \<Rightarrow> string \<Rightarrow> tree_state
     \<Rightarrow> timer \<times> tree_state" where
  "pollFolderStatus kbId seen resp folderPath folderId st =
     (let freshStatus = fetchKBStatusForFolder kbId resp;
          stillPending = list_ex (\<lambda>status. status = ''pending'') (map snd freshStatus)
      in if stillPending then (Some (folderPath, folderId), st)
         else (let (r, st1) = updateCachedFilesWithStatus folderId freshStatus st
               in (None, notify_errors seen folderId (hasErrors r) st1)))"

text \<open>
  \<open>toggleFolder\<close>: \<open>fetched\<close> is the outcome of \<open>fetchFolderContents\<close> (\<open>None\<close>: the
  fetch threw); \<open>fetchQuery\<close> leaves what it returns in the cache entry of the folder.
\<close>

definition toggleFolder ::
  "string option \<Rightarrow> tree_state \<Rightarrow> string \<Rightarrow> FileItem list option \<Rightarrow> kb_response \<Rightarrow> tree_state
     \<Rightarrow> timer \<times> tree_state" where
  "toggleFolder kbId seen folderId fetched resp st =
     (if folderId \<in> expandedFolders seen
      then (None, st\<lparr>expandedFolders := expandedFolders st - {folderId}\<rparr>)
      else
        (let st1 = st\<lparr>loadingFolders := insert folderId (loadingFolders st)\<rparr> in
         case fetched of
           None \<Rightarrow> (None, st1\<lparr>loadingFolders := loadingFolders st1 - {folderId}\<rparr>)
         | Some driveFiles' \<Rightarrow>
             (let st2 = st1\<lparr>driveFiles := (driveFiles st1)(folderId \<mapsto> driveFiles')\<rparr>;
                  (tm, st3) =
                    (if truthy kbId \<and> driveFiles' \<noteq> [] then
                       (let folderPath = getFolderPath driveFiles';
                            kbStatusMap = fetchKBStatusForFolder kbId resp;
                            (r, st2a) = updateCachedFilesWithStatus folderId kbStatusMap st2;
                            st2b = notify_errors seen folderId (hasErrors r) st2a
                        in (if hasPending r then Some (folderPath, folderId) else None, st2b))
                     else (None, st2));
                  st4 = st3\<lparr>expandedFolders := insert folderId (expandedFolders st3)\<rparr>
              in (tm, st4\<lparr>loadingFolders := loadingFolders st4 - {folderId}\<rparr>))))"

definition collapseAllFolders :: "tree_state \<Rightarrow> tree_state" where
  "collapseAllFolders st = st\<lparr>expandedFolders := {}, loadingFolders := {}, errorToastShown := {}\<rparr>"

text \<open>
  The chain of timer callbacks that \<open>pollFolderStatus\<close> starts: each tick that reschedules
  runs the same callback again \<open>POLL_INTERVAL\<close> later, against the backend's next answer.
  The list holds the answers of the ticks that have fired so far; the result is the timer
  left on the queue, the clock and the state.
\<close>

fun pollFolderChain ::
  "string option \<Rightarrow> tree_state \<Rightarrow> string \<Rightarrow> string \<Rightarrow> kb_response list \<Rightarrow> int \<Rightarrow> tree_state
     \<Rightarrow> timer \<times> int \<times> tree_state" where
  "pollFolderChain kbId seen folderPath folderId [] now st = (Some (folderPath, folderId), now, st)"
| "pollFolderChain kbId seen folderPath folderId (resp # resps) now st =
     (case pollFolderStatus kbId seen resp folderPath folderId st of
        (Some (p, i), st') \<Rightarrow> pollFolderChain kbId seen p i resps (now + POLL_INTERVAL) st'
      | (None, st') \<Rightarrow> (None, now, st'))"

section \<open>useFileTree: the tree materializer\<close>

text \<open>
  \<open>buildFileTree\<close> recurses through the cache, so a cache in which an expanded directory
  is listed below itself makes it recurse without end. The first numeral argument bounds
  the depth of the recursion; \<open>None\<close> is a run that exceeds it.
\<close>

fun buildFileTree ::
  "tree_state \<Rightarrow> status_map option \<Rightarrow> nat \<Rightarrow> FileItem list \<Rightarrow> nat \<Rightarrow> string \<Rightarrow> FileItem list option" where
  "buildFileTree st statusMap 0 fs lvl parentPath = None"
| "buildFileTree st statusMap (Suc fuel) fs lvl parentPath =
     those (map (\<lambda>file.
       let isExpanded' = (id_of file \<in> expandedFolders st);
           isLoading' = (id_of file \<in> loadingFolders st);
           children' =
             (if type_of file = Directory \<and> isExpanded' \<and> \<not> isLoading' then
                (case driveFiles st (id_of file) of
                   None \<Rightarrow> Some []
                 | Some folderData \<Rightarrow>
                     (let seg = last (split_on CHR ''/'' (name file));
                          currentPath = (if parentPath \<noteq> [] then parentPath @ ''/'' @ seg else seg)
                      in buildFileTree st statusMap fuel folderData (lvl + 1) currentPath))
              else Some []);
           kbStatus =
             (if lvl = 0 then (case statusMap of None \<Rightarrow> None | Some m \<Rightarrow> map_of m (id_of file))
              else status file)
       in map_option
            (\<lambda>c. FileItem (id_of file) (name file) (type_of file) (or_else kbStatus (status file))
                   isExpanded' isLoading' c lvl)
            children') fs)"

text \<open>\<open>flattenTree\<close>: \<open>traverse\<close> pushes onto the shared array \<open>result\<close>.\<close>

fun traverse :: "FileItem list \<Rightarrow> FileItem list \<Rightarrow> FileItem list" where
  "traverse [] result = result"
| "traverse (FileItem i n t s e l c lv # items) result =
     traverse items
       (if c \<noteq> [] then traverse c (result @ [FileItem i n t s e l c lv])
        else result @ [FileItem i n t s e l c lv])"

definition flattenTree :: "FileItem list \<Rightarrow> FileItem list" where
  "flattenTree tree = traverse tree []"

text \<open>\<open>flatFiles\<close>, the hook's \<open>files\<close>: \<open>rootData\<close> is \<open>rootData?.data\<close>.\<close>

definition flatFiles ::
  "tree_state \<Rightarrow> status_map option \<Rightarrow> nat \<Rightarrow> FileItem list option \<Rightarrow> FileItem list option" where
  "flatFiles st statusMap fuel rootData =
     (case rootData of
        None \<Rightarrow> Some []
      | Some d \<Rightarrow> map_option flattenTree (buildFileTree st statusMap fuel d 0 []))"

text \<open>
  The materializer as the specification words it, to compare the code with: the pre-order
  sequence of a tree (a parent, then its descendants, then its later siblings), and the
  relation between a fragment and its composed tree at depth \<open>d\<close>: one node per entry, in
  order, at level \<open>d\<close>, whose children compose the cached fragment one level deeper
  exactly when the entry is an expanded directory that is not loading, and are empty
  otherwise.
\<close>

fun preorder :: "FileItem list \<Rightarrow> FileItem list" where
  "preorder [] = []"
| "preorder (FileItem i n t s e l c lv # items) =
     FileItem i n t s e l c lv # preorder c @ preorder items"

fun composed :: "tree_state \<Rightarrow> nat \<Rightarrow> FileItem list \<Rightarrow> FileItem list \<Rightarrow> bool" where
  "composed st d [] [] = True"
| "composed st d (f # fs) (FileItem i n t s e l c lv # nodes) =
     (i = id_of f \<and> n = name f \<and> t = type_of f \<and> lv = d
      \<and> e = (i \<in> expandedFolders st) \<and> l = (i \<in> loadingFolders st)
      \<and> (if t = Directory \<and> i \<in> expandedFolders st \<and> i \<notin> loadingFolders st
         then (case driveFiles st i of None \<Rightarrow> c = [] | Some folderData \<Rightarrow> composed st (Suc d) folderData c)
         else c = [])
      \<and> composed st d fs nodes)"
| "composed st d [] (node # nodes) = False"
| "composed st d (f # fs) [] = False"

text \<open>Names for the parts of the callback of \<open>files.map\<close> in \<open>buildFileTree\<close>: the test that
  opens a directory, the path handed down, and the node returned for an entry with its
  composed children.\<close>

definition opens :: "tree_state \<Rightarrow> FileItem \<Rightarrow> bool" where
  "opens st f = (type_of f = Directory \<and> id_of f \<in> expandedFolders st \<and> id_of f \<notin> loadingFolders st)"

definition make_node :: "tree_state \<Rightarrow> status_map option \<Rightarrow> nat \<Rightarrow> FileItem \<Rightarrow> FileItem list \<Rightarrow> FileItem" where
  "make_node st statusMap lvl f c =
     FileItem (id_of f) (name f) (type_of f)
       (or_else (if lvl = 0 then (case statusMap of None \<Rightarrow> None | Some m \<Rightarrow> map_of m (id_of f))
                 else status f) (status f))
       (id_of f \<in> expandedFolders st) (id_of f \<in> loadingFolders st) c lvl"

definition child_path :: "string \<Rightarrow> FileItem \<Rightarrow> string" where
  "child_path parentPath f =
     (if parentPath \<noteq> [] then parentPath @ ''/'' @ last (split_on CHR ''/'' (name f))
      else last (split_on CHR ''/'' (name f)))"

section \<open>useKnowledgeBaseStatus: the root-level poll\<close>

definition MAX_POLL_DURATION :: int where
  "MAX_POLL_DURATION = 2 * 60 * 1000"

record kb_state =
  shouldPoll :: bool
  hasShownErrorToast :: bool
  kb_toasts :: "string list"

definition is_unsettled :: "FileItem \<Rightarrow> bool" where
  "is_unsettled file = (status file = Some ''pending'' \<or> status file = Some ''pending_delete'')"

text \<open>The effect that decides whether polling continues; \<open>kbResources\<close> is
  \<open>kbResources?.data\<close>, \<open>now\<close> is \<open>Date.now()\<close>.\<close>

definition pollEffect :: "int \<Rightarrow> int \<Rightarrow> FileItem list option \<Rightarrow> kb_state \<Rightarrow> kb_state" where
  "pollEffect pollingStartTime now kbResources st =
     (case kbResources of
        None \<Rightarrow> st
      | Some resources \<Rightarrow>
          if resources = [] then st\<lparr>shouldPoll := False\<rparr>
          else
            (let fs = filter (\<lambda>item. type_of item = File) resources in
             if fs = [] then st\<lparr>shouldPoll := False\<rparr>
             else
               (let hasUnsettledFiles = list_ex is_unsettled fs;
                    errorFiles = filter (\<lambda>file. status file = Some ''error'') fs;
                    st1 = (if errorFiles \<noteq> [] \<and> \<not> hasShownErrorToast st
                           then st\<lparr>hasShownErrorToast := True,
                                   kb_toasts := kb_toasts st @ [''kb-error-toast'']\<rparr>
                           else st);
                    pollingDuration = now - pollingStartTime
                in if pollingDuration > MAX_POLL_DURATION then st1\<lparr>shouldPoll := False\<rparr>
                   else if \<not> hasUnsettledFiles then st1\<lparr>shouldPoll := False\<rparr>
                   else st1)))"

section \<open>useFileSelection\<close>

definition startsWith :: "string \<Rightarrow> string \<Rightarrow> bool" where
  "startsWith s p = prefix p s"

definition children_of :: "FileItem list \<Rightarrow> FileItem \<Rightarrow> string list" where
  "children_of fs file = map id_of (filter (\<lambda>f. startsWith (name f) (name file @ ''/'')) fs)"

definition childrenMap :: "FileItem list \<Rightarrow> (string \<rightharpoonup> string list)" where
  "childrenMap fs =
     foldl (\<lambda>m file. if type_of file = Directory then m(id_of file \<mapsto> children_of fs file) else m)
       Map.empty fs"

text \<open>The \<open>while (queue.length > 0)\<close> loop of \<open>getAllDescendantIds\<close>; \<open>None\<close> is a loop
  that never ends.\<close>

partial_function (option) descendants_loop ::
  "(string \<rightharpoonup> string list) \<Rightarrow> string list \<Rightarrow> string list \<Rightarrow> string list option" where
  "descendants_loop cm queue descendants =
     (case queue of
        [] \<Rightarrow> Some descendants
      | currentId # rest \<Rightarrow>
          (let children' = (case cm currentId of None \<Rightarrow> [] | Some cs \<Rightarrow> cs)
           in descendants_loop cm (rest @ children') (descendants @ children')))"

definition getAllDescendantIds :: "FileItem list \<Rightarrow> string \<Rightarrow> string list option" where
  "getAllDescendantIds fs fileId = descendants_loop (childrenMap fs) [fileId] []"

text \<open>\<open>rowSelection\<close> is a \<open>Record<string, boolean>\<close>.\<close>

type_synonym row_selection = "string \<rightharpoonup> bool"

definition mark :: "bool \<Rightarrow> row_selection \<Rightarrow> string \<Rightarrow> row_selection" where
  "mark isSelected sel i = (if isSelected then sel(i \<mapsto> True) else sel(i := None))"

definition handleRowSelection ::
  "FileItem list \<Rightarrow> string \<Rightarrow> bool \<Rightarrow> row_selection \<Rightarrow> row_selection option" where
  "handleRowSelection fs fileId isSelected prev =
     (case find (\<lambda>f. id_of f = fileId) fs of
        None \<Rightarrow> Some prev
      | Some file \<Rightarrow>
          (let newSelection = mark isSelected prev fileId in
           if type_of file = Directory then
             map_option (foldl (mark isSelected) newSelection) (getAllDescendantIds fs fileId)
           else Some newSelection))"

text \<open>The ids of the known nodes below the node with id \<open>i\<close>, by path prefix.\<close>

definition below :: "FileItem list \<Rightarrow> string \<Rightarrow> string set" where
  "below fs i = {id_of f | f. f \<in> set fs \<and> (\<exists>d \<in> set fs. id_of d = i \<and> startsWith (name f) (name d @ ''/''))}"

text \<open>The order in which the loop descends: from a node to nodes with longer names.\<close>

definition longer :: "FileItem list \<Rightarrow> (string \<times> string) set" where
  "longer fs = {(c, i). \<exists>f \<in> set fs. \<exists>d \<in> set fs. id_of f = c \<and> id_of d = i \<and> length (name d) < length (name f)}"

section \<open>useKnowledgeBaseDeletion\<close>

definition fileMap :: "FileItem list \<Rightarrow> (string \<rightharpoonup> FileItem)" where
  "fileMap allFiles = foldl (\<lambda>m file. m(id_of file \<mapsto> file)) Map.empty allFiles"

definition is_indexed_file :: "FileItem \<Rightarrow> bool" where
  "is_indexed_file file = (type_of file = File \<and> status file = Some ''indexed'')"

definition filesToDelete :: "string list \<Rightarrow> FileItem list \<Rightarrow> FileItem list" where
  "filesToDelete selectedIds allFiles =
     concat (map (\<lambda>i.
       case fileMap allFiles i of
         None \<Rightarrow> []
       | Some item \<Rightarrow>
           if type_of item = File \<and> status item = Some ''indexed'' then [item]
           else if type_of item = Directory then
             filter (\<lambda>file. is_indexed_file file \<and> startsWith (name file) (name item @ ''/'')) allFiles
           else []) selectedIds)"

fun findIndex :: "('a \<Rightarrow> bool) \<Rightarrow> 'a list \<Rightarrow> int" where
  "findIndex P [] = - 1"
| "findIndex P (x # xs) =
     (if P x then 0 else (let r = findIndex P xs in if r < 0 then - 1 else r + 1))"

definition uniqueFiles :: "FileItem list \<Rightarrow> FileItem list" where
  "uniqueFiles arr =
     map snd (filter (\<lambda>(index, file). findIndex (\<lambda>f. id_of f = id_of file) arr = int index)
                (enumerate 0 arr))"

text \<open>
  The hook's state, the query cache as far as the hook touches it, and the knowledge
  base behind \<open>deleteKBResource\<close>: a call answers in a state \<open>'w\<close> of the backend with
  \<open>None\<close> (the promise resolves) or \<open>Some e\<close> (it rejects with \<open>e\<close>) and leaves a new
  state. \<open>calls\<close> logs the requests sent.
\<close>

record ('w, 'e) deletion_state =
  isDeleting :: bool
  deletingFiles :: "string set"
  world :: 'w
  calls :: "(string \<times> string) list"
  kbResourcesInvalidated :: bool
  kbFileStatusInvalidated :: bool
  driveFilesCache :: "string \<rightharpoonup> FileItem list"

record 'e delete_result =
  file_of :: FileItem
  success :: bool
  error :: "'e option"

fun mutationFn ::
  "(string \<Rightarrow> string \<Rightarrow> 'w \<Rightarrow> 'e option \<times> 'w) \<Rightarrow> string \<Rightarrow> FileItem list
     \<Rightarrow> 'e delete_result list \<Rightarrow> ('w, 'e) deletion_state
     \<Rightarrow> 'e delete_result list \<times> ('w, 'e) deletion_state" where
  "mutationFn deleteKBResource kbId [] results st = (results, st)"
| "mutationFn deleteKBResource kbId (f # rest) results st =
     (let st1 = st\<lparr>deletingFiles := insert (id_of f) (deletingFiles st)\<rparr>;
          (answer, w) = deleteKBResource kbId (name f) (world st1);
          st2 = st1\<lparr>world := w, calls := calls st1 @ [(kbId, name f)]\<rparr>;
          results' = results @ [\<lparr>file_of = f, success = (answer = None), error = answer\<rparr>];
          st3 = st2\<lparr>deletingFiles := deletingFiles st2 - {id_of f}\<rparr>
      in mutationFn deleteKBResource kbId rest results' st3)"

definition onSuccess :: "('w, 'e) deletion_state \<Rightarrow> ('w, 'e) deletion_state" where
  "onSuccess st =
     st\<lparr>kbResourcesInvalidated := True, kbFileStatusInvalidated := True,
        driveFilesCache := Map.empty, isDeleting := False\<rparr>"

definition deleteSelectedFiles ::
  "(string \<Rightarrow> string \<Rightarrow> 'w \<Rightarrow> 'e option \<times> 'w) \<Rightarrow> string option \<Rightarrow> string list \<Rightarrow> FileItem list
     \<Rightarrow> ('w, 'e) deletion_state \<Rightarrow> ('w, 'e) deletion_state" where
  "deleteSelectedFiles deleteKBResource kbId selectedIds allFiles st =
     (if \<not> truthy kbId then st
      else
        (let unique = uniqueFiles (filesToDelete selectedIds allFiles) in
         if unique = [] then st
         else onSuccess (snd (mutationFn deleteKBResource (the kbId) unique [] (st\<lparr>isDeleting := True\<rparr>)))))"


section \<open>Status merge: lemmas\<close>

lemma with_status_sel [simp]:
  "id_of (with_status s f) = id_of f" "name (with_status s f) = name f"
  "type_of (with_status s f) = type_of f" "status (with_status s f) = s"
  "isExpanded (with_status s f) = isExpanded f" "isLoading (with_status s f) = isLoading f"
  "children (with_status s f) = children f" "level (with_status s f) = level f"
  by (cases f; simp)+

lemma with_status_same [simp]: "with_status (status f) f = f"
  by (cases f) simp

lemma set_update_values: "snd ` set (AList.update k v m) \<subseteq> insert v (snd ` set m)"
  by (induction m) auto

lemma set_status_truthy: "[] \<notin> snd ` set m \<Longrightarrow> [] \<notin> snd ` set (set_status m r)"
proof -
  assume a: "[] \<notin> snd ` set m"
  define v where "v = (case or_else (status r) (Some ''unknown'') of Some s \<Rightarrow> s | None \<Rightarrow> ''unknown'')"
  have "v \<noteq> []"
    unfolding v_def by (cases "status r") (auto simp: or_else_def)
  with a have "[] \<notin> insert v (snd ` set m)"
    by simp
  moreover have "snd ` set (set_status m r) \<subseteq> insert v (snd ` set m)"
    unfolding set_status_def v_def by (rule set_update_values)
  ultimately show ?thesis by (rule contra_subsetD [rotated])
qed

lemma foldl_set_status_truthy: "[] \<notin> snd ` set m \<Longrightarrow> [] \<notin> snd ` set (foldl set_status m rs)"
  by (induction rs arbitrary: m) (simp_all add: set_status_truthy)

text \<open>Every map that \<open>fetchKBStatusForFolder\<close> returns holds truthy values only.\<close>

lemma fetchKBStatusForFolder_truthy: "[] \<notin> snd ` set (fetchKBStatusForFolder kbId resp)"
  using foldl_set_status_truthy [of "[]"]
  by (auto simp: fetchKBStatusForFolder_def split: kb_response.splits option.splits)

lemma merge_status_eq:
  assumes "[] \<notin> snd ` set m"
  shows "merge_status m f =
           with_status (case map_of m (id_of f) of Some v \<Rightarrow> Some v | None \<Rightarrow> status f) f"
proof (cases "map_of m (id_of f)")
  case None
  then show ?thesis by (simp add: merge_status_def or_else_def)
next
  case (Some v)
  then have "(id_of f, v) \<in> set m" by (rule map_of_SomeD)
  then have "snd (id_of f, v) \<in> snd ` set m" by (rule imageI)
  then have "v \<in> snd ` set m" by simp
  with assms have "v \<noteq> []" by blast
  with Some show ?thesis by (simp add: merge_status_def or_else_def)
qed

text \<open>
  C2. Merging a status map into a cached fragment: the node whose id is a key of the map
  gets the map's value as its status, every other node keeps the status it had, and
  nothing but the status changes; the merged fragment replaces the cache entry. So a
  miss never turns a known status into \<open>unknown\<close>, and merging the empty map changes
  nothing. The status maps are those with truthy values, as \<open>fetchKBStatusForFolder\<close>
  builds them (\<open>fetchKBStatusForFolder_truthy\<close>).
\<close>

theorem merge_sets_present_keeps_absent:
  assumes "[] \<notin> snd ` set m" and "driveFiles st folderId = Some frag"
  shows "updatedFiles (fst (updateCachedFilesWithStatus folderId m st)) =
           map (\<lambda>f. with_status (case map_of m (id_of f) of Some v \<Rightarrow> Some v | None \<Rightarrow> status f) f) frag
         \<and> driveFiles (snd (updateCachedFilesWithStatus folderId m st)) folderId =
             Some (updatedFiles (fst (updateCachedFilesWithStatus folderId m st)))
         \<and> (\<forall>f \<in> set frag. map_of m (id_of f) = None \<longrightarrow> merge_status m f = f)
         \<and> (m = [] \<longrightarrow> updatedFiles (fst (updateCachedFilesWithStatus folderId m st)) = frag)"
proof -
  have eq: "map (merge_status m) frag =
      map (\<lambda>f. with_status (case map_of m (id_of f) of Some v \<Rightarrow> Some v | None \<Rightarrow> status f) f) frag"
    using merge_status_eq [OF assms(1)] by simp
  have upd: "updatedFiles (fst (updateCachedFilesWithStatus folderId m st)) = map (merge_status m) frag"
    using assms(2) by (simp add: updateCachedFilesWithStatus_def Let_def)
  have cache: "driveFiles (snd (updateCachedFilesWithStatus folderId m st)) folderId =
      Some (map (merge_status m) frag)"
    using assms(2) by (simp add: updateCachedFilesWithStatus_def Let_def)
  have miss: "\<forall>f \<in> set frag. map_of m (id_of f) = None \<longrightarrow> merge_status m f = f"
    by (simp add: merge_status_def or_else_def)
  have "merge_status [] f = f" for f
    by (simp add: merge_status_def or_else_def)
  then have empty: "m = [] \<longrightarrow> map (merge_status m) frag = frag"
    by (simp add: map_idI)
  from upd eq have c1: "updatedFiles (fst (updateCachedFilesWithStatus folderId m st)) =
      map (\<lambda>f. with_status (case map_of m (id_of f) of Some v \<Rightarrow> Some v | None \<Rightarrow> status f) f) frag"
    by (rule trans)
  from cache upd have c2: "driveFiles (snd (updateCachedFilesWithStatus folderId m st)) folderId =
      Some (updatedFiles (fst (updateCachedFilesWithStatus folderId m st)))"
    by simp
  have c4: "m = [] \<longrightarrow> updatedFiles (fst (updateCachedFilesWithStatus folderId m st)) = frag"
  proof
    assume "m = []"
    with empty have "map (merge_status m) frag = frag" by (rule mp)
    with upd show "updatedFiles (fst (updateCachedFilesWithStatus folderId m st)) = frag"
      by (rule trans)
  qed
  show ?thesis
    by (rule conjI [OF c1 conjI [OF c2 conjI [OF miss c4]]])
qed

theorem merge_sets_present_keeps_absent_witness:
  "[] \<notin> snd ` set [(''b'', ''indexed'')]
   \<and> updatedFiles (fst (updateCachedFilesWithStatus ''F'' [(''b'', ''indexed'')]
        \<lparr>expandedFolders = {}, loadingFolders = {}, errorToastShown = {},
         driveFiles = [''F'' \<mapsto> [FileItem ''a'' ''F/a'' File (Some ''error'') False False [] 0,
                                FileItem ''b'' ''F/b'' File (Some ''pending'') False False [] 0]],
         toasts = []\<rparr>))
     = [FileItem ''a'' ''F/a'' File (Some ''error'') False False [] 0,
        FileItem ''b'' ''F/b'' File (Some ''indexed'') False False [] 0]"
proof -
  let ?frag = "[FileItem ''a'' ''F/a'' File (Some ''error'') False False [] 0,
                FileItem ''b'' ''F/b'' File (Some ''pending'') False False [] 0]"
  let ?st = "\<lparr>expandedFolders = {}, loadingFolders = {}, errorToastShown = {},
              driveFiles = [''F'' \<mapsto> ?frag], toasts = []\<rparr>"
  have h1: "[] \<notin> snd ` set [(''b'', ''indexed'')]" by simp
  have h2: "driveFiles ?st ''F'' = Some ?frag" by simp
  have "updatedFiles (fst (updateCachedFilesWithStatus ''F'' [(''b'', ''indexed'')] ?st)) =
      map (\<lambda>f. with_status (case map_of [(''b'', ''indexed'')] (id_of f) of
                                Some v \<Rightarrow> Some v | None \<Rightarrow> status f) f) ?frag"
    using merge_sets_present_keeps_absent [OF h1 h2] by (rule conjunct1)
  also have "\<dots> = [FileItem ''a'' ''F/a'' File (Some ''error'') False False [] 0,
                     FileItem ''b'' ''F/b'' File (Some ''indexed'') False False [] 0]"
    by simp
  finally have res: "updatedFiles (fst (updateCachedFilesWithStatus ''F'' [(''b'', ''indexed'')] ?st)) =
      [FileItem ''a'' ''F/a'' File (Some ''error'') False False [] 0,
       FileItem ''b'' ''F/b'' File (Some ''indexed'') False False [] 0]" .
  show ?thesis by (rule conjI [OF h1 res])
qed

section \<open>Folder polling and notification: lemmas\<close>


lemma updateCached_frame [simp]:
  "toasts (snd (updateCachedFilesWithStatus folderId m st)) = toasts st"
  "errorToastShown (snd (updateCachedFilesWithStatus folderId m st)) = errorToastShown st"
  "expandedFolders (snd (updateCachedFilesWithStatus folderId m st)) = expandedFolders st"
  "loadingFolders (snd (updateCachedFilesWithStatus folderId m st)) = loadingFolders st"
  by (simp_all add: updateCachedFilesWithStatus_def Let_def split: option.splits)

lemma notify_errors_effect:
  "toasts (notify_errors seen fid errs st) =
     toasts st @ (if errs \<and> fid \<notin> errorToastShown seen then [folder_error_toast fid] else [])"
  "errorToastShown (notify_errors seen fid errs st) =
     (if errs \<and> fid \<notin> errorToastShown seen then insert fid (errorToastShown st) else errorToastShown st)"
  by (simp_all add: notify_errors_def)

lemma pollFolderStatus_pending:
  "''pending'' \<in> snd ` set (fetchKBStatusForFolder kbId resp) \<Longrightarrow>
   pollFolderStatus kbId seen resp folderPath folderId st = (Some (folderPath, folderId), st)"
  by (simp add: pollFolderStatus_def Let_def list_ex_iff)

lemma pollFolderStatus_settled:
  "''pending'' \<notin> snd ` set (fetchKBStatusForFolder kbId resp) \<Longrightarrow>
   pollFolderStatus kbId seen resp folderPath folderId st =
     (None, notify_errors seen folderId
              (hasErrors (fst (updateCachedFilesWithStatus folderId (fetchKBStatusForFolder kbId resp) st)))
              (snd (updateCachedFilesWithStatus folderId (fetchKBStatusForFolder kbId resp) st)))"
  by (simp add: pollFolderStatus_def Let_def list_ex_iff split: prod.splits)

lemma toggleFolder_expand:
  assumes "folderId \<notin> expandedFolders seen" "truthy kbId" "fs \<noteq> []"
  shows "toasts (snd (toggleFolder kbId seen folderId (Some fs) resp st)) =
           toasts st @ (if list_ex is_error (map (merge_status (fetchKBStatusForFolder kbId resp)) fs)
                           \<and> folderId \<notin> errorToastShown seen
                        then [folder_error_toast folderId] else [])"
    and "errorToastShown (snd (toggleFolder kbId seen folderId (Some fs) resp st)) =
           (if list_ex is_error (map (merge_status (fetchKBStatusForFolder kbId resp)) fs)
                           \<and> folderId \<notin> errorToastShown seen
            then insert folderId (errorToastShown st) else errorToastShown st)"
  using assms
  by (simp_all add: toggleFolder_def Let_def updateCachedFilesWithStatus_def notify_errors_def split: prod.splits)

section \<open>Settlement and timeout of the polls\<close>

lemma fetch_single:
  "fetchKBStatusForFolder (Some ''kb'') (Resolved (Some [FileItem i n t (Some (c # cs)) e l ch lv])) = [(i, c # cs)]"
  by (simp add: fetchKBStatusForFolder_def set_status_def or_else_def)

lemma pollFolderStatus_reschedules_iff:
  "fst (pollFolderStatus kbId seen resp folderPath folderId st) \<noteq> None
     \<longleftrightarrow> ''pending'' \<in> snd ` set (fetchKBStatusForFolder kbId resp)"
  by (cases "''pending'' \<in> snd ` set (fetchKBStatusForFolder kbId resp)")
     (simp_all add: pollFolderStatus_pending pollFolderStatus_settled)

text \<open>The root-level poll of \<open>useKnowledgeBaseStatus\<close>: with at least one file and no
  timeout it goes on exactly while a file is \<open>pending\<close> or \<open>pending_delete\<close>, and it
  stops once the elapsed time exceeds \<open>MAX_POLL_DURATION\<close>.\<close>

lemma pollEffect_unsettled:
  assumes "filter (\<lambda>item. type_of item = File) resources \<noteq> []"
    and "\<not> now - pollingStartTime > MAX_POLL_DURATION"
  shows "shouldPoll (pollEffect pollingStartTime now (Some resources) st) =
           (shouldPoll st \<and> list_ex is_unsettled (filter (\<lambda>item. type_of item = File) resources))"
proof -
  from assms(1) have "resources \<noteq> []" by auto
  with assms show ?thesis by (simp add: pollEffect_def Let_def)
qed

lemma pollEffect_timeout:
  assumes "now - pollingStartTime > MAX_POLL_DURATION"
  shows "\<not> shouldPoll (pollEffect pollingStartTime now (Some resources) st)"
  using assms by (simp add: pollEffect_def Let_def)

lemma pollEffect_keeps_polling_on_pending_delete:
  "shouldPoll (pollEffect 0 3000
      (Some [FileItem ''a'' ''F/a'' File (Some ''pending_delete'') False False [] 0])
      \<lparr>shouldPoll = True, hasShownErrorToast = False, kb_toasts = []\<rparr>)"
  by (simp add: pollEffect_def Let_def is_unsettled_def MAX_POLL_DURATION_def)

lemma pollFolderChain_stuck:
  "\<forall>r \<in> set resps. ''pending'' \<in> snd ` set (fetchKBStatusForFolder kbId r) \<Longrightarrow>
   pollFolderChain kbId seen folderPath folderId resps now st =
     (Some (folderPath, folderId), now + int (length resps) * POLL_INTERVAL, st)"
proof (induction resps arbitrary: now)
  case Nil
  then show ?case by simp
next
  case (Cons r rs)
  then have "pollFolderStatus kbId seen r folderPath folderId st = (Some (folderPath, folderId), st)"
    by (simp add: pollFolderStatus_pending)
  with Cons show ?case by (simp add: algebra_simps)
qed

text \<open>
  C1. Polling stops on a tick exactly when no file of the scope is \<open>pending\<close> or
  \<open>pending_delete\<close>; a scope with a \<open>pending_delete\<close> file and no \<open>pending\<close> file must
  keep polling. The root-level poll does so (\<open>pollEffect_unsettled\<close>,
  \<open>pollEffect_keeps_polling_on_pending_delete\<close>). The folder-level poll
  \<open>pollFolderStatus\<close> looks for \<open>"pending"\<close> only (\<open>pollFolderStatus_reschedules_iff\<close>):
  on a scope whose single file is \<open>pending_delete\<close> it leaves no timer.
\<close>

theorem pollFolderStatus_stops_on_pending_delete:
  "fst (pollFolderStatus (Some ''kb'') seen
      (Resolved (Some [FileItem ''a'' ''F/a'' File (Some ''pending_delete'') False False [] 0]))
      folderPath folderId st) = None"
proof -
  have h: "''pending'' \<notin> snd ` set (fetchKBStatusForFolder (Some ''kb'')
      (Resolved (Some [FileItem ''a'' ''F/a'' File (Some ''pending_delete'') False False [] 0])))"
    by (simp add: fetch_single)
  show ?thesis by (simp only: pollFolderStatus_settled [OF h] fst_conv)
qed

text \<open>
  C3. Once the elapsed time exceeds the maximum poll duration the poller stops, however
  many files are unsettled. The root-level poll does (\<open>pollEffect_timeout\<close>). The chain
  of folder-level polls has no clock: against a backend that keeps answering \<open>pending\<close>
  it is still scheduled after any number \<open>n\<close> of ticks, \<open>n * POLL_INTERVAL\<close> later, and
  41 ticks already exceed \<open>MAX_POLL_DURATION\<close>.
\<close>

theorem pollFolderChain_has_no_timeout:
  "pollFolderChain (Some ''kb'') seen folderPath folderId
      (replicate n (Resolved (Some [FileItem ''a'' ''F/a'' File (Some ''pending'') False False [] 0]))) now st
   = (Some (folderPath, folderId), now + int n * POLL_INTERVAL, st)
   \<and> MAX_POLL_DURATION < 41 * POLL_INTERVAL"
proof -
  have "''pending'' \<in> snd ` set (fetchKBStatusForFolder (Some ''kb'')
      (Resolved (Some [FileItem ''a'' ''F/a'' File (Some ''pending'') False False [] 0])))"
    by (simp add: fetch_single)
  then have "\<forall>r \<in> set (replicate n (Resolved (Some [FileItem ''a'' ''F/a'' File (Some ''pending'') False False [] 0]))).
      ''pending'' \<in> snd ` set (fetchKBStatusForFolder (Some ''kb'') r)"
    by simp
  from pollFolderChain_stuck [OF this]
  show ?thesis by (simp add: MAX_POLL_DURATION_def POLL_INTERVAL_def)
qed

section \<open>The failure notification\<close>

text \<open>
  A poll tick checks for errors on its final update only: a tick whose fetched statuses
  hold \<open>error\<close> for one file and \<open>pending\<close> for another reschedules and leaves the state,
  with its log of notifications, as it was.
\<close>

lemma pollFolderStatus_defers_error:
  "''error'' \<in> snd ` set (fetchKBStatusForFolder (Some ''kb'')
       (Resolved (Some [FileItem ''a'' ''F/a'' File (Some ''error'') False False [] 0,
                        FileItem ''b'' ''F/b'' File (Some ''pending'') False False [] 0])))
   \<and> pollFolderStatus (Some ''kb'')
        \<lparr>expandedFolders = {''F''}, loadingFolders = {}, errorToastShown = {},
         driveFiles = [''F'' \<mapsto> [FileItem ''a'' ''F/a'' File (Some ''pending'') False False [] 0,
                                FileItem ''b'' ''F/b'' File (Some ''pending'') False False [] 0]],
         toasts = []\<rparr>
        (Resolved (Some [FileItem ''a'' ''F/a'' File (Some ''error'') False False [] 0,
                         FileItem ''b'' ''F/b'' File (Some ''pending'') False False [] 0]))
        ''/F'' ''F''
        \<lparr>expandedFolders = {''F''}, loadingFolders = {}, errorToastShown = {},
         driveFiles = [''F'' \<mapsto> [FileItem ''a'' ''F/a'' File (Some ''pending'') False False [] 0,
                                FileItem ''b'' ''F/b'' File (Some ''pending'') False False [] 0]],
         toasts = []\<rparr>
     = (Some (''/F'', ''F''),
        \<lparr>expandedFolders = {''F''}, loadingFolders = {}, errorToastShown = {},
         driveFiles = [''F'' \<mapsto> [FileItem ''a'' ''F/a'' File (Some ''pending'') False False [] 0,
                                FileItem ''b'' ''F/b'' File (Some ''pending'') False False [] 0]],
         toasts = []\<rparr>)"
proof -
  have f: "fetchKBStatusForFolder (Some ''kb'')
       (Resolved (Some [FileItem ''a'' ''F/a'' File (Some ''error'') False False [] 0,
                        FileItem ''b'' ''F/b'' File (Some ''pending'') False False [] 0]))
     = [(''a'', ''error''), (''b'', ''pending'')]"
    by (simp add: fetchKBStatusForFolder_def set_status_def or_else_def)
  have p: "''pending'' \<in> snd ` set (fetchKBStatusForFolder (Some ''kb'')
       (Resolved (Some [FileItem ''a'' ''F/a'' File (Some ''error'') False False [] 0,
                        FileItem ''b'' ''F/b'' File (Some ''pending'') False False [] 0])))"
    unfolding f by simp
  have e: "''error'' \<in> snd ` set (fetchKBStatusForFolder (Some ''kb'')
       (Resolved (Some [FileItem ''a'' ''F/a'' File (Some ''error'') False False [] 0,
                        FileItem ''b'' ''F/b'' File (Some ''pending'') False False [] 0])))"
    unfolding f by simp
  show ?thesis
    by (rule conjI [OF e pollFolderStatus_pending [OF p]])
qed

text \<open>
  C4. Across the polls and expansions of a folder the failure notification is emitted at
  most once. The guard \<open>!errorToastShown.has(folderId)\<close> is meant to ensure it, but the
  timer callback that \<open>toggleFolder\<close> schedules is the \<open>pollFolderStatus\<close> of the render
  that handled the click, and reads that render's \<open>errorToastShown\<close>. On a first
  expansion of \<open>F\<close> that sees \<open>a\<close> in error and \<open>b\<close> pending, \<open>toggleFolder\<close> notifies,
  adds \<open>F\<close> to the set and schedules the poll; when \<open>b\<close> has settled, the tick it
  scheduled still reads the set without \<open>F\<close>, passes the guard and calls \<open>toast.error\<close>
  for \<open>F\<close> a second time.
\<close>

theorem stale_poll_notifies_twice:
  "fst (toggleFolder (Some ''kb'')
          \<lparr>expandedFolders = {}, loadingFolders = {}, errorToastShown = {}, driveFiles = Map.empty, toasts = []\<rparr>
          ''F''
          (Some [FileItem ''a'' ''F/a'' File None False False [] 0,
                 FileItem ''b'' ''F/b'' File None False False [] 0])
          (Resolved (Some [FileItem ''a'' ''F/a'' File (Some ''error'') False False [] 0,
                           FileItem ''b'' ''F/b'' File (Some ''pending'') False False [] 0]))
          \<lparr>expandedFolders = {}, loadingFolders = {}, errorToastShown = {}, driveFiles = Map.empty, toasts = []\<rparr>) = Some (''/F'', ''F'')
   \<and> toasts (snd (toggleFolder (Some ''kb'')
          \<lparr>expandedFolders = {}, loadingFolders = {}, errorToastShown = {}, driveFiles = Map.empty, toasts = []\<rparr>
          ''F''
          (Some [FileItem ''a'' ''F/a'' File None False False [] 0,
                 FileItem ''b'' ''F/b'' File None False False [] 0])
          (Resolved (Some [FileItem ''a'' ''F/a'' File (Some ''error'') False False [] 0,
                           FileItem ''b'' ''F/b'' File (Some ''pending'') False False [] 0]))
          \<lparr>expandedFolders = {}, loadingFolders = {}, errorToastShown = {}, driveFiles = Map.empty, toasts = []\<rparr>)) = [folder_error_toast ''F'']
   \<and> errorToastShown (snd (toggleFolder (Some ''kb'')
          \<lparr>expandedFolders = {}, loadingFolders = {}, errorToastShown = {}, driveFiles = Map.empty, toasts = []\<rparr>
          ''F''
          (Some [FileItem ''a'' ''F/a'' File None False False [] 0,
                 FileItem ''b'' ''F/b'' File None False False [] 0])
          (Resolved (Some [FileItem ''a'' ''F/a'' File (Some ''error'') False False [] 0,
                           FileItem ''b'' ''F/b'' File (Some ''pending'') False False [] 0]))
          \<lparr>expandedFolders = {}, loadingFolders = {}, errorToastShown = {}, driveFiles = Map.empty, toasts = []\<rparr>)) = {''F''}
   \<and> fst (pollFolderStatus (Some ''kb'')
       \<lparr>expandedFolders = {}, loadingFolders = {}, errorToastShown = {}, driveFiles = Map.empty, toasts = []\<rparr>
       (Resolved (Some [FileItem ''a'' ''F/a'' File (Some ''error'') False False [] 0,
                        FileItem ''b'' ''F/b'' File (Some ''indexed'') False False [] 0]))
       ''/F'' ''F''
       (snd (toggleFolder (Some ''kb'')
          \<lparr>expandedFolders = {}, loadingFolders = {}, errorToastShown = {}, driveFiles = Map.empty, toasts = []\<rparr>
          ''F''
          (Some [FileItem ''a'' ''F/a'' File None False False [] 0,
                 FileItem ''b'' ''F/b'' File None False False [] 0])
          (Resolved (Some [FileItem ''a'' ''F/a'' File (Some ''error'') False False [] 0,
                           FileItem ''b'' ''F/b'' File (Some ''pending'') False False [] 0]))
          \<lparr>expandedFolders = {}, loadingFolders = {}, errorToastShown = {}, driveFiles = Map.empty, toasts = []\<rparr>))) = None
   \<and> toasts (snd (pollFolderStatus (Some ''kb'')
       \<lparr>expandedFolders = {}, loadingFolders = {}, errorToastShown = {}, driveFiles = Map.empty, toasts = []\<rparr>
       (Resolved (Some [FileItem ''a'' ''F/a'' File (Some ''error'') False False [] 0,
                        FileItem ''b'' ''F/b'' File (Some ''indexed'') False False [] 0]))
       ''/F'' ''F''
       (snd (toggleFolder (Some ''kb'')
          \<lparr>expandedFolders = {}, loadingFolders = {}, errorToastShown = {}, driveFiles = Map.empty, toasts = []\<rparr>
          ''F''
          (Some [FileItem ''a'' ''F/a'' File None False False [] 0,
                 FileItem ''b'' ''F/b'' File None False False [] 0])
          (Resolved (Some [FileItem ''a'' ''F/a'' File (Some ''error'') False False [] 0,
                           FileItem ''b'' ''F/b'' File (Some ''pending'') False False [] 0]))
          \<lparr>expandedFolders = {}, loadingFolders = {}, errorToastShown = {}, driveFiles = Map.empty, toasts = []\<rparr>)))) = [folder_error_toast ''F'', folder_error_toast ''F'']"
proof -
  have t: "(toggleFolder (Some ''kb'')
          \<lparr>expandedFolders = {}, loadingFolders = {}, errorToastShown = {}, driveFiles = Map.empty, toasts = []\<rparr>
          ''F''
          (Some [FileItem ''a'' ''F/a'' File None False False [] 0,
                 FileItem ''b'' ''F/b'' File None False False [] 0])
          (Resolved (Some [FileItem ''a'' ''F/a'' File (Some ''error'') False False [] 0,
                           FileItem ''b'' ''F/b'' File (Some ''pending'') False False [] 0]))
          \<lparr>expandedFolders = {}, loadingFolders = {}, errorToastShown = {}, driveFiles = Map.empty, toasts = []\<rparr>) =
      (Some (''/F'', ''F''),
       \<lparr>expandedFolders = {''F''}, loadingFolders = {}, errorToastShown = {''F''},
        driveFiles = [''F'' \<mapsto> [FileItem ''a'' ''F/a'' File (Some ''error'') False False [] 0,
                               FileItem ''b'' ''F/b'' File (Some ''pending'') False False [] 0]],
        toasts = [folder_error_toast ''F'']\<rparr>)"
    by (simp add: toggleFolder_def fetchKBStatusForFolder_def set_status_def
        or_else_def updateCachedFilesWithStatus_def notify_errors_def merge_status_def is_error_def
        is_pending_def getFolderPath_def Let_def)
  have p: "pollFolderStatus (Some ''kb'')
       \<lparr>expandedFolders = {}, loadingFolders = {}, errorToastShown = {}, driveFiles = Map.empty, toasts = []\<rparr>
       (Resolved (Some [FileItem ''a'' ''F/a'' File (Some ''error'') False False [] 0,
                        FileItem ''b'' ''F/b'' File (Some ''indexed'') False False [] 0]))
       ''/F'' ''F''
       \<lparr>expandedFolders = {''F''}, loadingFolders = {}, errorToastShown = {''F''},
        driveFiles = [''F'' \<mapsto> [FileItem ''a'' ''F/a'' File (Some ''error'') False False [] 0,
                               FileItem ''b'' ''F/b'' File (Some ''pending'') False False [] 0]],
        toasts = [folder_error_toast ''F'']\<rparr>
     = (None,
        \<lparr>expandedFolders = {''F''}, loadingFolders = {}, errorToastShown = {''F''},
         driveFiles = [''F'' \<mapsto> [FileItem ''a'' ''F/a'' File (Some ''error'') False False [] 0,
                                FileItem ''b'' ''F/b'' File (Some ''indexed'') False False [] 0]],
         toasts = [folder_error_toast ''F'', folder_error_toast ''F'']\<rparr>)"
    by (simp add: pollFolderStatus_def fetchKBStatusForFolder_def set_status_def
        or_else_def updateCachedFilesWithStatus_def notify_errors_def merge_status_def is_error_def
        Let_def)
  show ?thesis unfolding t snd_conv fst_conv p by simp
qed

section \<open>Collapse-all\<close>

text \<open>
  C10. \<open>collapseAllFolders\<close> empties the expanded set, the loading set and the
  already-notified set (the cache and the log of notifications stay). So the next
  expansion of a folder with an error file notifies again, whether or not the folder
  had been notified before the collapse.
\<close>

theorem collapseAllFolders_resets_notified:
  "expandedFolders (collapseAllFolders st) = {}
   \<and> loadingFolders (collapseAllFolders st) = {}
   \<and> errorToastShown (collapseAllFolders st) = {}
   \<and> driveFiles (collapseAllFolders st) = driveFiles st
   \<and> toasts (collapseAllFolders st) = toasts st
   \<and> (truthy kbId \<and> fs \<noteq> []
        \<and> list_ex is_error (map (merge_status (fetchKBStatusForFolder kbId resp)) fs)
      \<longrightarrow> toasts (snd (toggleFolder kbId (collapseAllFolders st) folderId (Some fs) resp
                          (collapseAllFolders st)))
           = toasts st @ [folder_error_toast folderId])"
proof -
  have sets: "expandedFolders (collapseAllFolders st) = {}" "loadingFolders (collapseAllFolders st) = {}"
    "errorToastShown (collapseAllFolders st) = {}" "driveFiles (collapseAllFolders st) = driveFiles st"
    "toasts (collapseAllFolders st) = toasts st"
    by (simp_all add: collapseAllFolders_def)
  have "toasts (snd (toggleFolder kbId (collapseAllFolders st) folderId (Some fs) resp (collapseAllFolders st)))
           = toasts st @ [folder_error_toast folderId]"
    if "truthy kbId" "fs \<noteq> []" "list_ex is_error (map (merge_status (fetchKBStatusForFolder kbId resp)) fs)"
    using toggleFolder_expand(1) [of folderId "collapseAllFolders st" kbId fs resp "collapseAllFolders st"] that sets
    by simp
  with sets show ?thesis by simp
qed

theorem collapseAllFolders_resets_notified_witness:
  "truthy (Some ''kb'')
   \<and> ''F'' \<in> errorToastShown
        \<lparr>expandedFolders = {''F''}, loadingFolders = {}, errorToastShown = {''F''},
          driveFiles = [''F'' \<mapsto> [FileItem ''a'' ''F/a'' File (Some ''error'') False False [] 0]],
          toasts = [folder_error_toast ''F'']\<rparr>
   \<and> toasts (snd (toggleFolder (Some ''kb'')
       (collapseAllFolders \<lparr>expandedFolders = {''F''}, loadingFolders = {}, errorToastShown = {''F''},
          driveFiles = [''F'' \<mapsto> [FileItem ''a'' ''F/a'' File (Some ''error'') False False [] 0]],
          toasts = [folder_error_toast ''F'']\<rparr>)
       ''F'' (Some [FileItem ''a'' ''F/a'' File (Some ''error'') False False [] 0])
       (Resolved (Some [FileItem ''a'' ''F/a'' File (Some ''error'') False False [] 0]))
       (collapseAllFolders \<lparr>expandedFolders = {''F''}, loadingFolders = {}, errorToastShown = {''F''},
          driveFiles = [''F'' \<mapsto> [FileItem ''a'' ''F/a'' File (Some ''error'') False False [] 0]],
          toasts = [folder_error_toast ''F'']\<rparr>)))
     = [folder_error_toast ''F'', folder_error_toast ''F'']"
proof -
  let ?a = "FileItem ''a'' ''F/a'' File (Some ''error'') False False [] 0"
  let ?st = "\<lparr>expandedFolders = {''F''}, loadingFolders = {}, errorToastShown = {''F''},
          driveFiles = [''F'' \<mapsto> [?a]], toasts = [folder_error_toast ''F'']\<rparr>"
  have h: "truthy (Some ''kb'') \<and> [?a] \<noteq> []
      \<and> list_ex is_error (map (merge_status (fetchKBStatusForFolder (Some ''kb'') (Resolved (Some [?a])))) [?a])"
    by (simp add: fetchKBStatusForFolder_def set_status_def or_else_def merge_status_def is_error_def)
  have "truthy (Some ''kb'') \<and> [?a] \<noteq> []
        \<and> list_ex is_error (map (merge_status (fetchKBStatusForFolder (Some ''kb'') (Resolved (Some [?a])))) [?a])
      \<longrightarrow> toasts (snd (toggleFolder (Some ''kb'') (collapseAllFolders ?st) ''F'' (Some [?a]) (Resolved (Some [?a]))
                          (collapseAllFolders ?st)))
           = toasts ?st @ [folder_error_toast ''F'']"
    using collapseAllFolders_resets_notified [of ?st "Some ''kb''" "[?a]" "Resolved (Some [?a])" "''F''"]
    by (elim conjE)
  from this h have "toasts (snd (toggleFolder (Some ''kb'') (collapseAllFolders ?st) ''F'' (Some [?a]) (Resolved (Some [?a]))
                          (collapseAllFolders ?st)))
           = toasts ?st @ [folder_error_toast ''F'']"
    by (rule mp)
  then have r: "toasts (snd (toggleFolder (Some ''kb'') (collapseAllFolders ?st) ''F'' (Some [?a]) (Resolved (Some [?a]))
                          (collapseAllFolders ?st)))
           = [folder_error_toast ''F'', folder_error_toast ''F'']"
    by simp
  have k: "truthy (Some ''kb'')" by simp
  have m: "''F'' \<in> errorToastShown ?st" by simp
  show ?thesis by (rule conjI [OF k conjI [OF m r]])
qed

section \<open>Deletion: the plan and the batch\<close>

lemma map_add_upd_assoc: "m0(k \<mapsto> a) ++ M = m0 ++ ([k \<mapsto> a] ++ M)"
  by (rule ext) (simp add: map_add_def split: option.splits)

lemma foldl_upd_map_of:
  "foldl (\<lambda>m f. m(id_of f \<mapsto> f)) m0 xs = m0 ++ map_of (rev (map (\<lambda>f. (id_of f, f)) xs))"
proof (induction xs arbitrary: m0)
  case Nil
  then show ?case by simp
next
  case (Cons a xs)
  have "foldl (\<lambda>m f. m(id_of f \<mapsto> f)) m0 (a # xs) = foldl (\<lambda>m f. m(id_of f \<mapsto> f)) (m0(id_of a \<mapsto> a)) xs"
    by simp
  also have "\<dots> = m0(id_of a \<mapsto> a) ++ map_of (rev (map (\<lambda>f. (id_of f, f)) xs))"
    by (rule Cons.IH)
  also have "\<dots> = m0 ++ ([id_of a \<mapsto> a] ++ map_of (rev (map (\<lambda>f. (id_of f, f)) xs)))"
    by (rule map_add_upd_assoc)
  also have "[id_of a \<mapsto> a] ++ map_of (rev (map (\<lambda>f. (id_of f, f)) xs))
      = map_of (rev (map (\<lambda>f. (id_of f, f)) (a # xs)))"
    by simp
  finally show ?case .
qed

lemma fileMap_distinct:
  assumes "distinct (map id_of allFiles)"
  shows "fileMap allFiles i = Some item \<longleftrightarrow> item \<in> set allFiles \<and> id_of item = i"
proof -
  have d: "distinct (map fst (rev (map (\<lambda>f. (id_of f, f)) allFiles)))"
    using assms by (simp add: rev_map [symmetric] comp_def)
  have "fileMap allFiles i = map_of (rev (map (\<lambda>f. (id_of f, f)) allFiles)) i"
    by (simp add: fileMap_def foldl_upd_map_of)
  also have "\<dots> = Some item \<longleftrightarrow> (i, item) \<in> set (rev (map (\<lambda>f. (id_of f, f)) allFiles))"
    using d by (rule map_of_eq_Some_iff)
  finally show ?thesis by auto
qed

lemma findIndex_first:
  "\<exists>x \<in> set xs. P x \<Longrightarrow> \<exists>i < length xs. findIndex P xs = int i \<and> P (xs ! i)"
proof (induction xs)
  case Nil
  then show ?case by simp
next
  case (Cons a xs)
  show ?case
  proof (cases "P a")
    case True
    then show ?thesis by (intro exI [of _ 0]) simp
  next
    case False
    with Cons.prems have "\<exists>x \<in> set xs. P x" by simp
    then obtain i where i: "i < length xs" "findIndex P xs = int i" "P (xs ! i)"
      using Cons.IH by blast
    with False show ?thesis by (intro exI [of _ "Suc i"]) (simp add: Let_def)
  qed
qed

lemma in_enumerate0: "(i, x) \<in> set (enumerate 0 xs) \<longleftrightarrow> i < length xs \<and> xs ! i = x"
  by (simp add: in_set_enumerate_eq)

lemma uniqueFiles_subset: "set (uniqueFiles arr) \<subseteq> set arr"
  by (auto simp: uniqueFiles_def in_enumerate0)

lemma uniqueFiles_covers:
  assumes "f \<in> set arr"
  shows "\<exists>g \<in> set (uniqueFiles arr). id_of g = id_of f"
proof -
  from assms have "\<exists>x \<in> set arr. id_of x = id_of f" by blast
  from findIndex_first [of arr "\<lambda>x. id_of x = id_of f", OF this]
  obtain i where i: "i < length arr" "findIndex (\<lambda>x. id_of x = id_of f) arr = int i" "id_of (arr ! i) = id_of f"
    by blast
  then have "(i, arr ! i) \<in> set (filter (\<lambda>(index, file). findIndex (\<lambda>f. id_of f = id_of file) arr = int index)
                (enumerate 0 arr))"
    by (simp add: in_enumerate0)
  then have "snd (i, arr ! i) \<in> set (uniqueFiles arr)"
    unfolding uniqueFiles_def set_map by (rule imageI)
  with i(3) show ?thesis by auto
qed

lemma uniqueFiles_distinct: "distinct (map id_of (uniqueFiles arr))"
proof -
  let ?Q = "\<lambda>(index, file). findIndex (\<lambda>f. id_of f = id_of file) arr = int index"
  have d: "distinct (filter ?Q (enumerate 0 arr))"
    by (simp add: distinct_enumerate)
  have inj: "inj_on (\<lambda>p. id_of (snd p)) (set (filter ?Q (enumerate 0 arr)))"
  proof (rule inj_onI)
    fix p q
    assume p: "p \<in> set (filter ?Q (enumerate 0 arr))" and q: "q \<in> set (filter ?Q (enumerate 0 arr))"
      and e: "id_of (snd p) = id_of (snd q)"
    obtain i x where px: "p = (i, x)" by (cases p)
    obtain j y where qy: "q = (j, y)" by (cases q)
    from p px have pi: "findIndex (\<lambda>f. id_of f = id_of x) arr = int i" "arr ! i = x"
      by (simp_all add: in_enumerate0)
    from q qy have qj: "findIndex (\<lambda>f. id_of f = id_of y) arr = int j" "arr ! j = y"
      by (simp_all add: in_enumerate0)
    from e px qy have "id_of x = id_of y" by simp
    with pi(1) qj(1) have "i = j" by simp
    with pi(2) qj(2) px qy show "p = q" by simp
  qed
  have "distinct (map (\<lambda>p. id_of (snd p)) (filter ?Q (enumerate 0 arr)))"
    using d inj by (simp add: distinct_map)
  then show ?thesis by (simp add: uniqueFiles_def comp_def)
qed

lemma uniqueFiles_set:
  assumes "\<forall>x \<in> set arr. \<forall>y \<in> set arr. id_of x = id_of y \<longrightarrow> x = y"
  shows "set (uniqueFiles arr) = set arr"
proof
  show "set (uniqueFiles arr) \<subseteq> set arr" by (rule uniqueFiles_subset)
  show "set arr \<subseteq> set (uniqueFiles arr)"
  proof
    fix f assume f: "f \<in> set arr"
    then obtain g where g: "g \<in> set (uniqueFiles arr)" "id_of g = id_of f"
      using uniqueFiles_covers by blast
    with uniqueFiles_subset have "g \<in> set arr" by blast
    with assms f g(2) have "g = f" by blast
    with g(1) show "f \<in> set (uniqueFiles arr)" by simp
  qed
qed

lemma uniqueFiles_Nil: "uniqueFiles arr = [] \<longleftrightarrow> arr = []"
proof
  assume u: "uniqueFiles arr = []"
  show "arr = []"
  proof (rule ccontr)
    assume "arr \<noteq> []"
    then obtain f where "f \<in> set arr" by (cases arr) auto
    then obtain g where "g \<in> set (uniqueFiles arr)" using uniqueFiles_covers by blast
    with u show False by simp
  qed
next
  assume "arr = []" then show "uniqueFiles arr = []" by (simp add: uniqueFiles_def)
qed

lemma filesToDelete_subset: "set (filesToDelete selectedIds allFiles) \<subseteq> set allFiles"
proof -
  have "fileMap allFiles i = Some item \<Longrightarrow> item \<in> set allFiles" for i item
  proof -
    assume "fileMap allFiles i = Some item"
    then have "map_of (rev (map (\<lambda>f. (id_of f, f)) allFiles)) i = Some item"
      by (simp add: fileMap_def foldl_upd_map_of)
    then have "(i, item) \<in> set (rev (map (\<lambda>f. (id_of f, f)) allFiles))" by (rule map_of_SomeD)
    then show ?thesis by auto
  qed
  then show ?thesis
    by (auto simp: filesToDelete_def split: option.splits if_splits)
qed

lemma filesToDelete_set:
  assumes "distinct (map id_of allFiles)"
  shows "set (filesToDelete selectedIds allFiles) =
     {f \<in> set allFiles. is_indexed_file f \<and>
        (id_of f \<in> set selectedIds
         \<or> (\<exists>d \<in> set allFiles. id_of d \<in> set selectedIds \<and> type_of d = Directory
               \<and> startsWith (name f) (name d @ ''/'')))}"
  (is "?L = ?R")
proof (rule set_eqI)
  fix f
  define g where "g = (\<lambda>i. case fileMap allFiles i of
         None \<Rightarrow> []
       | Some item \<Rightarrow>
           if type_of item = File \<and> status item = Some ''indexed'' then [item]
           else if type_of item = Directory then
             filter (\<lambda>file. is_indexed_file file \<and> startsWith (name file) (name item @ ''/'')) allFiles
           else [])"
  have L: "f \<in> ?L \<longleftrightarrow> (\<exists>i \<in> set selectedIds. f \<in> set (g i))"
    by (simp add: filesToDelete_def g_def)
  have g: "f \<in> set (g i) \<longleftrightarrow> (\<exists>item \<in> set allFiles. id_of item = i \<and>
      (if is_indexed_file item then f = item
       else type_of item = Directory \<and> f \<in> set allFiles \<and> is_indexed_file f
            \<and> startsWith (name f) (name item @ ''/'')))" for i
  proof (cases "fileMap allFiles i")
    case None
    then have "\<not> (\<exists>item. item \<in> set allFiles \<and> id_of item = i)"
      using fileMap_distinct [OF assms, of i] by simp
    with None show ?thesis by (auto simp: g_def)
  next
    case (Some item)
    then have it: "item \<in> set allFiles" "id_of item = i"
      using fileMap_distinct [OF assms, of i item] by simp_all
    have uniq: "item' = item" if "item' \<in> set allFiles" "id_of item' = i" for item'
    proof -
      from that have "fileMap allFiles i = Some item'"
        using fileMap_distinct [OF assms, of i item'] by simp
      with Some show ?thesis by simp
    qed
    have "f \<in> set (g i) \<longleftrightarrow>
      (if is_indexed_file item then f = item
       else type_of item = Directory \<and> f \<in> set allFiles \<and> is_indexed_file f
            \<and> startsWith (name f) (name item @ ''/''))"
      using Some by (auto simp: g_def is_indexed_file_def)
    also have "\<dots> \<longleftrightarrow> (\<exists>item \<in> set allFiles. id_of item = i \<and>
      (if is_indexed_file item then f = item
       else type_of item = Directory \<and> f \<in> set allFiles \<and> is_indexed_file f
            \<and> startsWith (name f) (name item @ ''/'')))"
      using it uniq by blast
    finally show ?thesis .
  qed
  have R: "f \<in> ?R \<longleftrightarrow> (\<exists>i \<in> set selectedIds. \<exists>item \<in> set allFiles. id_of item = i \<and>
      (if is_indexed_file item then f = item
       else type_of item = Directory \<and> f \<in> set allFiles \<and> is_indexed_file f
            \<and> startsWith (name f) (name item @ ''/'')))"
  proof
    assume "f \<in> ?R"
    then have f: "f \<in> set allFiles" "is_indexed_file f" and
      c: "id_of f \<in> set selectedIds
         \<or> (\<exists>d \<in> set allFiles. id_of d \<in> set selectedIds \<and> type_of d = Directory
               \<and> startsWith (name f) (name d @ ''/''))"
      by simp_all
    from c show "\<exists>i \<in> set selectedIds. \<exists>item \<in> set allFiles. id_of item = i \<and>
      (if is_indexed_file item then f = item
       else type_of item = Directory \<and> f \<in> set allFiles \<and> is_indexed_file f
            \<and> startsWith (name f) (name item @ ''/''))"
    proof
      assume "id_of f \<in> set selectedIds"
      with f show ?thesis by (intro bexI [of _ "id_of f"] bexI [of _ f]) simp_all
    next
      assume "\<exists>d \<in> set allFiles. id_of d \<in> set selectedIds \<and> type_of d = Directory
               \<and> startsWith (name f) (name d @ ''/'')"
      then obtain d where d: "d \<in> set allFiles" "id_of d \<in> set selectedIds" "type_of d = Directory"
        "startsWith (name f) (name d @ ''/'')" by blast
      then have "\<not> is_indexed_file d" by (simp add: is_indexed_file_def)
      with d f show ?thesis by (intro bexI [of _ "id_of d"] bexI [of _ d]) simp_all
    qed
  next
    assume "\<exists>i \<in> set selectedIds. \<exists>item \<in> set allFiles. id_of item = i \<and>
      (if is_indexed_file item then f = item
       else type_of item = Directory \<and> f \<in> set allFiles \<and> is_indexed_file f
            \<and> startsWith (name f) (name item @ ''/''))"
    then obtain item where it: "item \<in> set allFiles" "id_of item \<in> set selectedIds"
      "if is_indexed_file item then f = item
       else type_of item = Directory \<and> f \<in> set allFiles \<and> is_indexed_file f
            \<and> startsWith (name f) (name item @ ''/'')" by blast
    show "f \<in> ?R"
    proof (cases "is_indexed_file item")
      case True
      with it show ?thesis by simp
    next
      case False
      with it have "type_of item = Directory" "f \<in> set allFiles" "is_indexed_file f"
        "startsWith (name f) (name item @ ''/'')" by simp_all
      with it(1,2) show ?thesis by blast
    qed
  qed
  from L g R show "f \<in> ?L \<longleftrightarrow> f \<in> ?R" by simp
qed


lemma filesToDelete_indexed: "set (filesToDelete selectedIds allFiles) \<subseteq> {f \<in> set allFiles. is_indexed_file f}"
proof
  fix f assume f: "f \<in> set (filesToDelete selectedIds allFiles)"
  then obtain i where i: "f \<in> set (case fileMap allFiles i of
         None \<Rightarrow> []
       | Some item \<Rightarrow>
           if type_of item = File \<and> status item = Some ''indexed'' then [item]
           else if type_of item = Directory then
             filter (\<lambda>file. is_indexed_file file \<and> startsWith (name file) (name item @ ''/'')) allFiles
           else [])"
    by (auto simp: filesToDelete_def)
  then have "is_indexed_file f"
    by (cases "fileMap allFiles i") (auto simp: is_indexed_file_def split: if_splits)
  with f filesToDelete_subset show "f \<in> {f \<in> set allFiles. is_indexed_file f}" by blast
qed

lemma mutationFn_step:
  "mutationFn del kbId (f # rest) results st =
     mutationFn del kbId rest
       (results @ [\<lparr>file_of = f, success = (fst (del kbId (name f) (world st)) = None),
                    error = fst (del kbId (name f) (world st))\<rparr>])
       (st\<lparr>world := snd (del kbId (name f) (world st)),
           calls := calls st @ [(kbId, name f)],
           deletingFiles := deletingFiles st - {id_of f}\<rparr>)"
  by (simp add: Let_def case_prod_beta)

lemma mutationFn_results:
  "fst (mutationFn del kbId fs results st) = results @ fst (mutationFn del kbId fs [] st)"
  "snd (mutationFn del kbId fs results st) = snd (mutationFn del kbId fs [] st)"
proof (induction fs arbitrary: results st)
  case Nil
  { case 1 show ?case by simp }
  { case 2 show ?case by simp }
next
  case (Cons f rest)
  { case 1
    show ?case
      unfolding mutationFn_step
      by (subst Cons.IH(1), subst (2) Cons.IH(1)) simp }
  { case 2
    show ?case
      unfolding mutationFn_step
      by (subst Cons.IH(2), subst (2) Cons.IH(2)) simp }
qed

lemma mutationFn_files: "map file_of (fst (mutationFn del kbId fs [] st)) = fs"
proof (induction fs arbitrary: st)
  case Nil
  then show ?case by simp
next
  case (Cons f rest)
  show ?case
    unfolding mutationFn_step by (subst mutationFn_results(1)) (simp add: Cons.IH)
qed

lemma mutationFn_calls:
  "calls (snd (mutationFn del kbId fs results st)) = calls st @ map (\<lambda>f. (kbId, name f)) fs"
proof (induction fs arbitrary: results st)
  case Nil
  then show ?case by simp
next
  case (Cons f rest)
  show ?case unfolding mutationFn_step by (simp add: Cons.IH)
qed

lemma mutationFn_deleting:
  "deletingFiles (snd (mutationFn del kbId fs results st)) = deletingFiles st - id_of ` set fs"
proof (induction fs arbitrary: results st)
  case Nil
  then show ?case by simp
next
  case (Cons f rest)
  show ?case unfolding mutationFn_step by (auto simp: Cons.IH)
qed

lemma mutationFn_frame:
  "isDeleting (snd (mutationFn del kbId fs results st)) = isDeleting st"
  "driveFilesCache (snd (mutationFn del kbId fs results st)) = driveFilesCache st"
  "kbResourcesInvalidated (snd (mutationFn del kbId fs results st)) = kbResourcesInvalidated st"
  "kbFileStatusInvalidated (snd (mutationFn del kbId fs results st)) = kbFileStatusInvalidated st"
proof (induction fs arbitrary: results st)
  case Nil
  { case 1 show ?case by simp }
  { case 2 show ?case by simp }
  { case 3 show ?case by simp }
  { case 4 show ?case by simp }
next
  case (Cons f rest)
  { case 1 show ?case unfolding mutationFn_step by (simp add: Cons.IH) }
  { case 2 show ?case unfolding mutationFn_step by (simp add: Cons.IH) }
  { case 3 show ?case unfolding mutationFn_step by (simp add: Cons.IH) }
  { case 4 show ?case unfolding mutationFn_step by (simp add: Cons.IH) }
qed

lemma mutationFn_nth:
  "i < length fs \<Longrightarrow>
   fst (mutationFn del kbId fs [] st) ! i =
     \<lparr>file_of = fs ! i,
      success = (fst (del kbId (name (fs ! i)) (world (snd (mutationFn del kbId (take i fs) [] st)))) = None),
      error = fst (del kbId (name (fs ! i)) (world (snd (mutationFn del kbId (take i fs) [] st))))\<rparr>"
proof (induction fs arbitrary: st i)
  case Nil
  then show ?case by simp
next
  case (Cons f rest)
  show ?case
  proof (cases i)
    case 0
    show ?thesis
      unfolding 0 mutationFn_step by (subst mutationFn_results(1)) simp
  next
    case (Suc j)
    with Cons.prems have j: "j < length rest" by simp
    have "take i (f # rest) = f # take j rest" by (simp add: Suc)
    then have w: "snd (mutationFn del kbId (take i (f # rest)) [] st) =
        snd (mutationFn del kbId (take j rest) []
          (st\<lparr>world := snd (del kbId (name f) (world st)),
           calls := calls st @ [(kbId, name f)],
           deletingFiles := deletingFiles st - {id_of f}\<rparr>))"
      by (simp only: mutationFn_step) (subst mutationFn_results(2), simp)
    show ?thesis
      unfolding w unfolding Suc mutationFn_step
      by (subst mutationFn_results(1)) (simp add: Cons.IH [OF j])
  qed
qed

text \<open>
  C5. The deletion plan \<open>uniqueFiles\<close>, for files with distinct ids: it holds exactly the
  known indexed files that are selected themselves or whose name starts with the name of
  a selected directory followed by \<open>/\<close>, each once (no two entries share an id). With the
  selection \<open>{D}\<close> and \<open>a\<close> indexed, \<open>b\<close> pending, \<open>c\<close> in error below \<open>D\<close>, the plan is
  \<open>[a]\<close>; selecting \<open>a\<close> as well does not repeat it.
\<close>

theorem deletion_plan_exact:
  assumes "distinct (map id_of allFiles)"
  shows "set (uniqueFiles (filesToDelete selectedIds allFiles)) =
           {f \<in> set allFiles. is_indexed_file f \<and>
              (id_of f \<in> set selectedIds
               \<or> (\<exists>d \<in> set allFiles. id_of d \<in> set selectedIds \<and> type_of d = Directory
                     \<and> startsWith (name f) (name d @ ''/'')))}
         \<and> distinct (map id_of (uniqueFiles (filesToDelete selectedIds allFiles)))"
proof -
  from assms have inj: "inj_on id_of (set allFiles)" by (simp add: distinct_map)
  have "\<forall>x \<in> set (filesToDelete selectedIds allFiles). \<forall>y \<in> set (filesToDelete selectedIds allFiles).
      id_of x = id_of y \<longrightarrow> x = y"
    using inj filesToDelete_subset [of selectedIds allFiles] by (meson inj_onD subsetD)
  then have "set (uniqueFiles (filesToDelete selectedIds allFiles)) = set (filesToDelete selectedIds allFiles)"
    by (rule uniqueFiles_set)
  then have c1: "set (uniqueFiles (filesToDelete selectedIds allFiles)) =
           {f \<in> set allFiles. is_indexed_file f \<and>
              (id_of f \<in> set selectedIds
               \<or> (\<exists>d \<in> set allFiles. id_of d \<in> set selectedIds \<and> type_of d = Directory
                     \<and> startsWith (name f) (name d @ ''/'')))}"
    by (simp only: filesToDelete_set [OF assms])
  show ?thesis by (rule conjI [OF c1 uniqueFiles_distinct])
qed

theorem deletion_plan_exact_witness:
  "distinct (map id_of
        [FileItem ''d'' ''D'' Directory None False False [] 0,
         FileItem ''a'' ''D/a'' File (Some ''indexed'') False False [] 1,
         FileItem ''b'' ''D/b'' File (Some ''pending'') False False [] 1,
         FileItem ''c'' ''D/c'' File (Some ''error'') False False [] 1])
   \<and> uniqueFiles (filesToDelete [''d'']
        [FileItem ''d'' ''D'' Directory None False False [] 0,
         FileItem ''a'' ''D/a'' File (Some ''indexed'') False False [] 1,
         FileItem ''b'' ''D/b'' File (Some ''pending'') False False [] 1,
         FileItem ''c'' ''D/c'' File (Some ''error'') False False [] 1])
     = [FileItem ''a'' ''D/a'' File (Some ''indexed'') False False [] 1]
   \<and> uniqueFiles (filesToDelete [''d'', ''a'']
        [FileItem ''d'' ''D'' Directory None False False [] 0,
         FileItem ''a'' ''D/a'' File (Some ''indexed'') False False [] 1,
         FileItem ''b'' ''D/b'' File (Some ''pending'') False False [] 1,
         FileItem ''c'' ''D/c'' File (Some ''error'') False False [] 1])
     = [FileItem ''a'' ''D/a'' File (Some ''indexed'') False False [] 1]
   \<and> distinct (map id_of (uniqueFiles (filesToDelete [''d'', ''a'']
        [FileItem ''d'' ''D'' Directory None False False [] 0,
         FileItem ''a'' ''D/a'' File (Some ''indexed'') False False [] 1,
         FileItem ''b'' ''D/b'' File (Some ''pending'') False False [] 1,
         FileItem ''c'' ''D/c'' File (Some ''error'') False False [] 1])))"
proof -
  let ?all = "[FileItem ''d'' ''D'' Directory None False False [] 0,
         FileItem ''a'' ''D/a'' File (Some ''indexed'') False False [] 1,
         FileItem ''b'' ''D/b'' File (Some ''pending'') False False [] 1,
         FileItem ''c'' ''D/c'' File (Some ''error'') False False [] 1]"
  have h: "distinct (map id_of ?all)" by simp
  have e1: "uniqueFiles (filesToDelete [''d''] ?all)
      = [FileItem ''a'' ''D/a'' File (Some ''indexed'') False False [] 1]"
    by (simp add: filesToDelete_def fileMap_def uniqueFiles_def is_indexed_file_def startsWith_def Let_def)
  have e2: "uniqueFiles (filesToDelete [''d'', ''a''] ?all)
      = [FileItem ''a'' ''D/a'' File (Some ''indexed'') False False [] 1]"
    by (simp add: filesToDelete_def fileMap_def uniqueFiles_def is_indexed_file_def startsWith_def Let_def)
  have d: "distinct (map id_of (uniqueFiles (filesToDelete [''d'', ''a''] ?all)))"
    using deletion_plan_exact [OF h, of "[''d'', ''a'']"] by (rule conjunct2)
  show ?thesis by (rule conjI [OF h conjI [OF e1 conjI [OF e2 d]]])
qed

text \<open>
  C7. When the plan is empty (in particular when no known file is indexed),
  \<open>deleteSelectedFiles\<close> returns before \<open>setIsDeleting\<close> and \<open>mutate\<close>: the state is
  unchanged, so no request was sent (\<open>calls\<close>), no file was marked as deleting and the
  cache was not touched.
\<close>

theorem empty_plan_aborts:
  "(uniqueFiles (filesToDelete selectedIds allFiles) = []
      \<longrightarrow> deleteSelectedFiles del kbId selectedIds allFiles st = st)
   \<and> ((\<forall>f \<in> set allFiles. \<not> is_indexed_file f)
      \<longrightarrow> deleteSelectedFiles del kbId selectedIds allFiles st = st)"
proof -
  have a: "uniqueFiles (filesToDelete selectedIds allFiles) = []
      \<longrightarrow> deleteSelectedFiles del kbId selectedIds allFiles st = st"
    by (simp add: deleteSelectedFiles_def Let_def)
  have "filesToDelete selectedIds allFiles = []" if "\<forall>f \<in> set allFiles. \<not> is_indexed_file f"
  proof -
    have "x \<notin> set (filesToDelete selectedIds allFiles)" for x
    proof
      assume "x \<in> set (filesToDelete selectedIds allFiles)"
      with filesToDelete_indexed [of selectedIds allFiles]
      have "x \<in> {f \<in> set allFiles. is_indexed_file f}" by (rule subsetD)
      then have "x \<in> set allFiles" "is_indexed_file x" by simp_all
      with that show False by simp
    qed
    then show ?thesis by (cases "filesToDelete selectedIds allFiles") auto
  qed
  then have "uniqueFiles (filesToDelete selectedIds allFiles) = []" if "\<forall>f \<in> set allFiles. \<not> is_indexed_file f"
    using that by (simp add: uniqueFiles_Nil)
  with a have b: "(\<forall>f \<in> set allFiles. \<not> is_indexed_file f)
      \<longrightarrow> deleteSelectedFiles del kbId selectedIds allFiles st = st"
    by blast
  show ?thesis by (rule conjI [OF a b])
qed

theorem empty_plan_aborts_witness:
  "uniqueFiles (filesToDelete [''d'']
        [FileItem ''d'' ''D'' Directory None False False [] 0,
         FileItem ''b'' ''D/b'' File (Some ''pending'') False False [] 1,
         FileItem ''c'' ''D/c'' File (Some ''error'') False False [] 1]) = []
   \<and> deleteSelectedFiles (\<lambda>kbId n w. (Some ''rejected'', Suc w)) (Some ''kb'') [''d'']
        [FileItem ''d'' ''D'' Directory None False False [] 0,
         FileItem ''b'' ''D/b'' File (Some ''pending'') False False [] 1,
         FileItem ''c'' ''D/c'' File (Some ''error'') False False [] 1]
        \<lparr>isDeleting = False, deletingFiles = {}, world = 0 :: nat, calls = [],
         kbResourcesInvalidated = False, kbFileStatusInvalidated = False,
         driveFilesCache = [''D'' \<mapsto> []]\<rparr>
     = \<lparr>isDeleting = False, deletingFiles = {}, world = 0, calls = [],
         kbResourcesInvalidated = False, kbFileStatusInvalidated = False,
         driveFilesCache = [''D'' \<mapsto> []]\<rparr>"
proof -
  let ?all = "[FileItem ''d'' ''D'' Directory None False False [] 0,
         FileItem ''b'' ''D/b'' File (Some ''pending'') False False [] 1,
         FileItem ''c'' ''D/c'' File (Some ''error'') False False [] 1]"
  have h: "uniqueFiles (filesToDelete [''d''] ?all) = []"
    by (simp add: filesToDelete_def fileMap_def uniqueFiles_def is_indexed_file_def startsWith_def Let_def)
  have "uniqueFiles (filesToDelete [''d''] ?all) = []
      \<longrightarrow> deleteSelectedFiles (\<lambda>kbId n w. (Some ''rejected'', Suc w)) (Some ''kb'') [''d''] ?all
        \<lparr>isDeleting = False, deletingFiles = {}, world = 0 :: nat, calls = [],
         kbResourcesInvalidated = False, kbFileStatusInvalidated = False,
         driveFilesCache = [''D'' \<mapsto> []]\<rparr>
     = \<lparr>isDeleting = False, deletingFiles = {}, world = 0, calls = [],
         kbResourcesInvalidated = False, kbFileStatusInvalidated = False,
         driveFilesCache = [''D'' \<mapsto> []]\<rparr>"
    using empty_plan_aborts [of "[''d'']" ?all "\<lambda>kbId n w. (Some ''rejected'', Suc w)" "Some ''kb''"
        "\<lparr>isDeleting = False, deletingFiles = {}, world = 0 :: nat, calls = [],
         kbResourcesInvalidated = False, kbFileStatusInvalidated = False,
         driveFilesCache = [''D'' \<mapsto> []]\<rparr>"]
    by (rule conjunct1)
  from this h have r: "deleteSelectedFiles (\<lambda>kbId n w. (Some ''rejected'', Suc w)) (Some ''kb'') [''d''] ?all
        \<lparr>isDeleting = False, deletingFiles = {}, world = 0 :: nat, calls = [],
         kbResourcesInvalidated = False, kbFileStatusInvalidated = False,
         driveFilesCache = [''D'' \<mapsto> []]\<rparr>
     = \<lparr>isDeleting = False, deletingFiles = {}, world = 0, calls = [],
         kbResourcesInvalidated = False, kbFileStatusInvalidated = False,
         driveFilesCache = [''D'' \<mapsto> []]\<rparr>"
    by (rule mp)
  show ?thesis by (rule conjI [OF h r])
qed

text \<open>
  C8. The batch \<open>mutationFn\<close> returns one result per candidate, in order; it sends one
  request per candidate, in order, whatever the earlier requests answered; the result of
  candidate \<open>i\<close> records the answer the backend gave to its own request, in the backend
  state the first \<open>i\<close> requests left; and every mark it set is cleared. A non-empty plan
  of \<open>deleteSelectedFiles\<close> is sent in full.
\<close>

theorem batch_attempts_every_candidate:
  "map file_of (fst (mutationFn del kbId fs [] st)) = fs
   \<and> calls (snd (mutationFn del kbId fs [] st)) = calls st @ map (\<lambda>f. (kbId, name f)) fs
   \<and> (\<forall>i < length fs.
        error (fst (mutationFn del kbId fs [] st) ! i) =
          fst (del kbId (name (fs ! i)) (world (snd (mutationFn del kbId (take i fs) [] st))))
        \<and> success (fst (mutationFn del kbId fs [] st) ! i) =
            (error (fst (mutationFn del kbId fs [] st) ! i) = None))
   \<and> deletingFiles (snd (mutationFn del kbId fs [] st)) = deletingFiles st - id_of ` set fs
   \<and> (truthy kb \<longrightarrow>
        calls (deleteSelectedFiles del kb selectedIds allFiles st) =
          calls st @ map (\<lambda>f. (the kb, name f)) (uniqueFiles (filesToDelete selectedIds allFiles)))"
proof -
  have c3: "\<forall>i < length fs.
        error (fst (mutationFn del kbId fs [] st) ! i) =
          fst (del kbId (name (fs ! i)) (world (snd (mutationFn del kbId (take i fs) [] st))))
        \<and> success (fst (mutationFn del kbId fs [] st) ! i) =
            (error (fst (mutationFn del kbId fs [] st) ! i) = None)"
    by (simp add: mutationFn_nth)
  have c5: "truthy kb \<longrightarrow>
        calls (deleteSelectedFiles del kb selectedIds allFiles st) =
          calls st @ map (\<lambda>f. (the kb, name f)) (uniqueFiles (filesToDelete selectedIds allFiles))"
    by (simp add: deleteSelectedFiles_def Let_def onSuccess_def mutationFn_calls)
  show ?thesis
    by (rule conjI [OF mutationFn_files conjI [OF mutationFn_calls conjI [OF c3 conjI [OF mutationFn_deleting c5]]]])
qed

theorem batch_attempts_every_candidate_witness:
  "mutationFn (\<lambda>kbId n w. (if w = (0::nat) then Some ''rejected'' else None, Suc w)) ''kb''
      [FileItem ''a'' ''D/a'' File (Some ''indexed'') False False [] 1,
       FileItem ''b'' ''D/b'' File (Some ''indexed'') False False [] 1] []
      \<lparr>isDeleting = True, deletingFiles = {}, world = 0, calls = [],
       kbResourcesInvalidated = False, kbFileStatusInvalidated = False, driveFilesCache = Map.empty\<rparr>
   = ([\<lparr>file_of = FileItem ''a'' ''D/a'' File (Some ''indexed'') False False [] 1,
        success = False, error = Some ''rejected''\<rparr>,
       \<lparr>file_of = FileItem ''b'' ''D/b'' File (Some ''indexed'') False False [] 1,
        success = True, error = None\<rparr>],
      \<lparr>isDeleting = True, deletingFiles = {}, world = 2, calls = [(''kb'', ''D/a''), (''kb'', ''D/b'')],
       kbResourcesInvalidated = False, kbFileStatusInvalidated = False, driveFilesCache = Map.empty\<rparr>)
   \<and> map file_of (fst (mutationFn (\<lambda>kbId n w. (if w = (0::nat) then Some ''rejected'' else None, Suc w)) ''kb''
      [FileItem ''a'' ''D/a'' File (Some ''indexed'') False False [] 1,
       FileItem ''b'' ''D/b'' File (Some ''indexed'') False False [] 1] []
      \<lparr>isDeleting = True, deletingFiles = {}, world = 0, calls = [],
       kbResourcesInvalidated = False, kbFileStatusInvalidated = False, driveFilesCache = Map.empty\<rparr>))
     = [FileItem ''a'' ''D/a'' File (Some ''indexed'') False False [] 1,
        FileItem ''b'' ''D/b'' File (Some ''indexed'') False False [] 1]"
proof -
  let ?del = "\<lambda>(kbId :: string) (n :: string) w. (if w = (0::nat) then Some ''rejected'' else None, Suc w)"
  let ?fs = "[FileItem ''a'' ''D/a'' File (Some ''indexed'') False False [] 1,
       FileItem ''b'' ''D/b'' File (Some ''indexed'') False False [] 1]"
  let ?st = "\<lparr>isDeleting = True, deletingFiles = {}, world = 0 :: nat, calls = [],
       kbResourcesInvalidated = False, kbFileStatusInvalidated = False, driveFilesCache = Map.empty\<rparr>"
  have e: "mutationFn ?del ''kb'' ?fs [] ?st
   = ([\<lparr>file_of = FileItem ''a'' ''D/a'' File (Some ''indexed'') False False [] 1,
        success = False, error = Some ''rejected''\<rparr>,
       \<lparr>file_of = FileItem ''b'' ''D/b'' File (Some ''indexed'') False False [] 1,
        success = True, error = None\<rparr>],
      \<lparr>isDeleting = True, deletingFiles = {}, world = 2, calls = [(''kb'', ''D/a''), (''kb'', ''D/b'')],
       kbResourcesInvalidated = False, kbFileStatusInvalidated = False, driveFilesCache = Map.empty\<rparr>)"
    by (simp add: Let_def)
  have f: "map file_of (fst (mutationFn ?del ''kb'' ?fs [] ?st)) = ?fs"
    using batch_attempts_every_candidate [of ?del "''kb''" ?fs ?st] by (rule conjunct1)
  show ?thesis by (rule conjI [OF e f])
qed

section \<open>Selection: descendants of a directory\<close>

lemma descendants_loop_terminates:
  fixes cm :: "string \<rightharpoonup> string list" and D :: "string \<Rightarrow> string set"
  defines "cs \<equiv> \<lambda>i. case cm i of None \<Rightarrow> [] | Some l \<Rightarrow> l"
  assumes wf: "wf r"
    and dec: "\<And>i c. c \<in> set (cs i) \<Longrightarrow> (c, i) \<in> r"
    and sub: "\<And>i. set (cs i) \<subseteq> D i"
    and tr: "\<And>i c. c \<in> D i \<Longrightarrow> D c \<subseteq> D i"
  shows "\<exists>res. descendants_loop cm queue descendants = Some res
           \<and> set descendants \<subseteq> set res
           \<and> set res \<subseteq> set descendants \<union> (\<Union>q \<in> set queue. D q)"
proof (induction "mset queue" arbitrary: queue descendants rule: wf_induct_rule [OF wf_mult [OF wf]])
  case 1
  show ?case
  proof (cases queue)
    case Nil
    then show ?thesis by (subst descendants_loop.simps) simp
  next
    case (Cons cur rest)
    have "(mset rest + mset (cs cur), mset rest + {#cur#}) \<in> mult r"
      by (rule one_step_implies_mult) (auto intro: dec)
    then have "(mset (rest @ cs cur), mset queue) \<in> mult r"
      by (simp add: Cons)
    from 1 [OF this, of "descendants @ cs cur"]
    obtain res where res: "descendants_loop cm (rest @ cs cur) (descendants @ cs cur) = Some res"
      "set (descendants @ cs cur) \<subseteq> set res"
      "set res \<subseteq> set (descendants @ cs cur) \<union> (\<Union>q \<in> set (rest @ cs cur). D q)"
      by blast
    have step: "descendants_loop cm queue descendants = descendants_loop cm (rest @ cs cur) (descendants @ cs cur)"
      by (subst descendants_loop.simps) (simp add: Cons cs_def Let_def)
    have "(\<Union>q \<in> set (cs cur). D q) \<subseteq> D cur"
      using sub [of cur] tr [of _ cur] by blast
    with res(3) sub [of cur]
    have "set res \<subseteq> set descendants \<union> (\<Union>q \<in> set queue. D q)"
      by (auto simp: Cons)
    with res(1,2) step show ?thesis by auto
  qed
qed


lemma find_distinct:
  "distinct (map id_of fs) \<Longrightarrow> d \<in> set fs \<Longrightarrow> find (\<lambda>f. id_of f = id_of d) fs = Some d"
proof (induction fs)
  case Nil
  then show ?case by simp
next
  case (Cons a fs)
  from Cons.prems(1) have dist: "distinct (map id_of fs)" and a: "id_of a \<notin> id_of ` set fs"
    by simp_all
  show ?case
  proof (cases "d = a")
    case True
    then show ?thesis by simp
  next
    case False
    with Cons.prems(2) have d: "d \<in> set fs" by simp
    then have "id_of d \<in> id_of ` set fs" by (rule imageI)
    with a have "id_of a \<noteq> id_of d" by metis
    then have "find (\<lambda>f. id_of f = id_of d) (a # fs) = find (\<lambda>f. id_of f = id_of d) fs"
      by simp
    also have "\<dots> = Some d" using dist d by (rule Cons.IH)
    finally show ?thesis .
  qed
qed

lemma find_id_None: "find (\<lambda>f. id_of f = i) fs = None \<longleftrightarrow> i \<notin> id_of ` set fs"
  by (auto simp: find_None_iff)

lemma foldl_childrenMap:
  "distinct (map id_of xs) \<Longrightarrow>
   foldl (\<lambda>m file. if type_of file = Directory then m(id_of file \<mapsto> g file) else m) m0 xs i =
     (case find (\<lambda>f. id_of f = i) xs of
        None \<Rightarrow> m0 i
      | Some f \<Rightarrow> if type_of f = Directory then Some (g f) else m0 i)"
proof (induction xs arbitrary: m0)
  case Nil
  then show ?case by simp
next
  case (Cons a xs)
  then have d: "distinct (map id_of xs)" and a: "id_of a \<notin> id_of ` set xs" by simp_all
  define m1 where "m1 = (if type_of a = Directory then m0(id_of a \<mapsto> g a) else m0)"
  have ih: "foldl (\<lambda>m file. if type_of file = Directory then m(id_of file \<mapsto> g file) else m) m1 xs i =
     (case find (\<lambda>f. id_of f = i) xs of
        None \<Rightarrow> m1 i
      | Some f \<Rightarrow> if type_of f = Directory then Some (g f) else m1 i)"
    by (rule Cons.IH [OF d])
  have st: "foldl (\<lambda>m file. if type_of file = Directory then m(id_of file \<mapsto> g file) else m) m0 (a # xs) i
      = foldl (\<lambda>m file. if type_of file = Directory then m(id_of file \<mapsto> g file) else m) m1 xs i"
    unfolding m1_def foldl_Cons by (rule refl)
  show ?case
  proof (cases "id_of a = i")
    case True
    with a have n: "find (\<lambda>f. id_of f = i) xs = None" by (simp add: find_id_None)
    have "m1 i = (if type_of a = Directory then Some (g a) else m0 i)"
      using True by (simp add: m1_def)
    with True n show ?thesis unfolding st ih by simp
  next
    case False
    then have "m1 i = m0 i" by (simp add: m1_def)
    with False show ?thesis unfolding st ih by (simp split: option.splits)
  qed
qed

lemma childrenMap_distinct:
  assumes "distinct (map id_of fs)"
  shows "childrenMap fs i =
     (case find (\<lambda>f. id_of f = i) fs of
        None \<Rightarrow> None
      | Some f \<Rightarrow> if type_of f = Directory then Some (children_of fs f) else None)"
proof -
  have "childrenMap fs i =
      (case find (\<lambda>f. id_of f = i) fs of
        None \<Rightarrow> Map.empty i
      | Some f \<Rightarrow> if type_of f = Directory then Some (children_of fs f) else Map.empty i)"
    unfolding childrenMap_def by (rule foldl_childrenMap [OF assms])
  then show ?thesis by simp
qed

lemma below_distinct:
  assumes "distinct (map id_of fs)" "d \<in> set fs"
  shows "below fs (id_of d) = {id_of f | f. f \<in> set fs \<and> startsWith (name f) (name d @ ''/'')}"
proof -
  from assms have "inj_on id_of (set fs)" by (simp add: distinct_map)
  then have "d' = d" if "d' \<in> set fs" "id_of d' = id_of d" for d'
    using that assms(2) by (auto dest: inj_onD)
  then show ?thesis using assms(2) unfolding below_def by blast
qed

lemma children_sub_below:
  assumes "distinct (map id_of fs)"
  shows "set (case childrenMap fs i of None \<Rightarrow> [] | Some l \<Rightarrow> l) \<subseteq> below fs i"
proof (cases "find (\<lambda>f. id_of f = i) fs")
  case None
  then show ?thesis by (simp add: childrenMap_distinct [OF assms])
next
  case (Some d)
  then have d: "d \<in> set fs" "id_of d = i"
    by (auto simp: find_Some_iff)
  with Some show ?thesis
    by (auto simp: childrenMap_distinct [OF assms] children_of_def below_def)
qed

lemma children_directory:
  assumes "distinct (map id_of fs)" "d \<in> set fs" "type_of d = Directory"
  shows "(case childrenMap fs (id_of d) of None \<Rightarrow> [] | Some l \<Rightarrow> l) = children_of fs d"
  using assms by (simp add: childrenMap_distinct [OF assms(1)] find_distinct)

lemma below_trans:
  assumes "distinct (map id_of fs)" "c \<in> below fs i"
  shows "below fs c \<subseteq> below fs i"
proof
  fix x assume "x \<in> below fs c"
  then obtain g e where g: "x = id_of g" "g \<in> set fs" "e \<in> set fs" "id_of e = c"
    "prefix (name e @ ''/'') (name g)"
    unfolding below_def startsWith_def by blast
  from assms(2) obtain f d where f: "c = id_of f" "f \<in> set fs" "d \<in> set fs" "id_of d = i"
    "prefix (name d @ ''/'') (name f)"
    unfolding below_def startsWith_def by blast
  from assms(1) have "inj_on id_of (set fs)" by (simp add: distinct_map)
  with g(3,4) f(1,2) have "e = f" by (auto dest: inj_onD)
  with g(5) have "prefix (name f) (name g)" by (auto dest: append_prefixD)
  with f(5) have "prefix (name d @ ''/'') (name g)" by (rule prefix_order.trans)
  with g(1,2) f(3,4) show "x \<in> below fs i"
    unfolding below_def startsWith_def by blast
qed

lemma wf_longer:
  assumes "distinct (map id_of fs)"
  shows "wf (longer fs)"
proof -
  define L where "L = sum_list (map (\<lambda>f. length (name f)) fs)"
  define len where "len = (\<lambda>i. case find (\<lambda>f. id_of f = i) fs of None \<Rightarrow> 0 | Some f \<Rightarrow> length (name f))"
  have len: "len (id_of f) = length (name f)" if "f \<in> set fs" for f
    using that by (simp add: len_def find_distinct [OF assms])
  have bound: "length (name f) \<le> L" if "f \<in> set fs" for f
    unfolding L_def using that by (induction fs) auto
  have "longer fs \<subseteq> measure (\<lambda>i. L - len i)"
  proof
    fix p assume "p \<in> longer fs"
    then obtain f d where "p = (id_of f, id_of d)" "f \<in> set fs" "d \<in> set fs" "length (name d) < length (name f)"
      unfolding longer_def by blast
    then show "p \<in> measure (\<lambda>i. L - len i)"
      using bound [of f] by (simp add: len)
  qed
  then show ?thesis by (rule wf_subset [OF wf_measure])
qed

lemma children_longer:
  assumes "distinct (map id_of fs)" "c \<in> set (case childrenMap fs i of None \<Rightarrow> [] | Some l \<Rightarrow> l)"
  shows "(c, i) \<in> longer fs"
proof -
  from assms children_sub_below have "c \<in> below fs i" by blast
  then obtain f d where "c = id_of f" "f \<in> set fs" "d \<in> set fs" "id_of d = i" "prefix (name d @ ''/'') (name f)"
    unfolding below_def startsWith_def by blast
  moreover from this have "length (name d @ ''/'') \<le> length (name f)" by (intro prefix_length_le)
  then have "length (name d) < length (name f)" by simp
  ultimately have "\<exists>f \<in> set fs. \<exists>d \<in> set fs. id_of f = c \<and> id_of d = i \<and> length (name d) < length (name f)"
    by blast
  then show ?thesis unfolding longer_def by simp
qed

lemma getAllDescendantIds_directory:
  assumes "distinct (map id_of fs)" "d \<in> set fs" "type_of d = Directory"
  shows "\<exists>ds. getAllDescendantIds fs (id_of d) = Some ds
           \<and> set ds = {id_of f | f. f \<in> set fs \<and> startsWith (name f) (name d @ ''/'')}"
proof -
  let ?cs = "children_of fs d"
  have step: "getAllDescendantIds fs (id_of d) = descendants_loop (childrenMap fs) ?cs ?cs"
    unfolding getAllDescendantIds_def
    by (subst descendants_loop.simps) (simp add: children_directory [OF assms] Let_def)
  from descendants_loop_terminates [of "longer fs" "childrenMap fs" "below fs" ?cs ?cs,
      OF wf_longer [OF assms(1)] children_longer [OF assms(1)] children_sub_below [OF assms(1)]
         below_trans [OF assms(1)]]
  obtain res where res: "descendants_loop (childrenMap fs) ?cs ?cs = Some res"
    "set ?cs \<subseteq> set res" "set res \<subseteq> set ?cs \<union> (\<Union>q \<in> set ?cs. below fs q)"
    by blast
  have cs: "set ?cs = below fs (id_of d)"
    unfolding below_distinct [OF assms(1,2)] by (auto simp: children_of_def)
  have "(\<Union>q \<in> set ?cs. below fs q) \<subseteq> below fs (id_of d)"
    unfolding cs using below_trans [OF assms(1)] by blast
  with res(2,3) cs have "set res = below fs (id_of d)" by blast
  with res(1) step show ?thesis
    unfolding below_distinct [OF assms(1,2)] by simp
qed

lemma foldl_mark:
  "foldl (mark b) sel ds i = (if i \<in> set ds then (if b then Some True else None) else sel i)"
  by (induction ds arbitrary: sel) (auto simp: mark_def)

text \<open>
  C6. For known nodes with distinct ids and a directory \<open>d\<close> among them:
  \<open>getAllDescendantIds\<close> returns (the queue runs empty), and the ids it collects are
  exactly the ids of the known nodes whose name starts with the name of \<open>d\<close> followed by
  \<open>/\<close>, at any depth. Selecting \<open>d\<close> sets exactly \<open>d\<close> and these ids and leaves every
  other entry of the selection as it was; deselecting \<open>d\<close> removes exactly \<open>d\<close> and these
  ids and leaves every other entry as it was.
\<close>

theorem select_directory_propagates:
  assumes "distinct (map id_of fs)" and "d \<in> set fs" and "type_of d = Directory"
  shows "(\<exists>ds. getAllDescendantIds fs (id_of d) = Some ds
            \<and> set ds = {id_of f | f. f \<in> set fs \<and> startsWith (name f) (name d @ ''/'')})
       \<and> (\<exists>sel. handleRowSelection fs (id_of d) True prev = Some sel
            \<and> (\<forall>i. sel i =
                  (if i = id_of d \<or> i \<in> {id_of f | f. f \<in> set fs \<and> startsWith (name f) (name d @ ''/'')}
                   then Some True else prev i)))
       \<and> (\<exists>sel. handleRowSelection fs (id_of d) False prev = Some sel
            \<and> (\<forall>i. sel i =
                  (if i = id_of d \<or> i \<in> {id_of f | f. f \<in> set fs \<and> startsWith (name f) (name d @ ''/'')}
                   then None else prev i)))"
proof -
  define B where "B = {id_of f | f. f \<in> set fs \<and> startsWith (name f) (name d @ ''/'')}"
  from getAllDescendantIds_directory [OF assms]
  obtain ds where ds: "getAllDescendantIds fs (id_of d) = Some ds" "set ds = B"
    unfolding B_def by blast
  have f: "find (\<lambda>f. id_of f = id_of d) fs = Some d"
    using assms(1,2) by (rule find_distinct)
  have h: "handleRowSelection fs (id_of d) b prev = Some (foldl (mark b) (mark b prev (id_of d)) ds)" for b
    by (simp add: handleRowSelection_def f assms(3) ds(1))
  have m: "foldl (mark b) (mark b prev (id_of d)) ds i =
      (if i = id_of d \<or> i \<in> B then (if b then Some True else None) else prev i)" for b i
    by (cases b) (simp_all add: foldl_mark ds(2) mark_def)
  have c1: "\<exists>ds. getAllDescendantIds fs (id_of d) = Some ds \<and> set ds = B"
    using ds by blast
  have c2: "\<exists>sel. handleRowSelection fs (id_of d) True prev = Some sel
            \<and> (\<forall>i. sel i = (if i = id_of d \<or> i \<in> B then Some True else prev i))"
    unfolding h by (simp add: m)
  have c3: "\<exists>sel. handleRowSelection fs (id_of d) False prev = Some sel
            \<and> (\<forall>i. sel i = (if i = id_of d \<or> i \<in> B then None else prev i))"
    unfolding h by (simp add: m)
  show ?thesis
    using conjI [OF c1 conjI [OF c2 c3]] unfolding B_def .
qed

theorem select_directory_propagates_witness:
  "distinct (map id_of [FileItem ''d'' ''D'' Directory None True False [] 0,
      FileItem ''a'' ''D/a'' File None False False [] 1,
      FileItem ''e'' ''D/E'' Directory None True False [] 1,
      FileItem ''c'' ''D/E/c'' File None False False [] 2,
      FileItem ''x'' ''Dx'' File None False False [] 0])
   \<and> getAllDescendantIds [FileItem ''d'' ''D'' Directory None True False [] 0,
      FileItem ''a'' ''D/a'' File None False False [] 1,
      FileItem ''e'' ''D/E'' Directory None True False [] 1,
      FileItem ''c'' ''D/E/c'' File None False False [] 2,
      FileItem ''x'' ''Dx'' File None False False [] 0] ''d'' = Some [''a'', ''e'', ''c'', ''c'']
   \<and> set [''a'', ''e'', ''c'', ''c''] =
       {id_of f | f. f \<in> set [FileItem ''d'' ''D'' Directory None True False [] 0,
      FileItem ''a'' ''D/a'' File None False False [] 1,
      FileItem ''e'' ''D/E'' Directory None True False [] 1,
      FileItem ''c'' ''D/E/c'' File None False False [] 2,
      FileItem ''x'' ''Dx'' File None False False [] 0] \<and> startsWith (name f) (''D'' @ ''/'')}
   \<and> handleRowSelection [FileItem ''d'' ''D'' Directory None True False [] 0,
      FileItem ''a'' ''D/a'' File None False False [] 1,
      FileItem ''e'' ''D/E'' Directory None True False [] 1,
      FileItem ''c'' ''D/E/c'' File None False False [] 2,
      FileItem ''x'' ''Dx'' File None False False [] 0] ''d'' True [''x'' \<mapsto> True]
       = Some [''x'' \<mapsto> True, ''d'' \<mapsto> True, ''a'' \<mapsto> True, ''e'' \<mapsto> True, ''c'' \<mapsto> True]
   \<and> handleRowSelection [FileItem ''d'' ''D'' Directory None True False [] 0,
      FileItem ''a'' ''D/a'' File None False False [] 1,
      FileItem ''e'' ''D/E'' Directory None True False [] 1,
      FileItem ''c'' ''D/E/c'' File None False False [] 2,
      FileItem ''x'' ''Dx'' File None False False [] 0] ''d'' False
         [''x'' \<mapsto> True, ''d'' \<mapsto> True, ''a'' \<mapsto> True, ''e'' \<mapsto> True, ''c'' \<mapsto> True]
       = Some [''x'' \<mapsto> True]"
proof -
  let ?d = "FileItem ''d'' ''D'' Directory None True False [] 0"
  let ?fs = "[FileItem ''d'' ''D'' Directory None True False [] 0,
      FileItem ''a'' ''D/a'' File None False False [] 1,
      FileItem ''e'' ''D/E'' Directory None True False [] 1,
      FileItem ''c'' ''D/E/c'' File None False False [] 2,
      FileItem ''x'' ''Dx'' File None False False [] 0]"
  have h1: "distinct (map id_of ?fs)" by simp
  have h2: "?d \<in> set ?fs" by simp
  have h3: "type_of ?d = Directory" by simp
  have cm: "childrenMap ?fs = [''d'' \<mapsto> [''a'', ''e'', ''c''], ''e'' \<mapsto> [''c'']]"
    by (simp add: childrenMap_def children_of_def startsWith_def)
  have g: "getAllDescendantIds ?fs ''d'' = Some [''a'', ''e'', ''c'', ''c'']"
    unfolding getAllDescendantIds_def cm by (simp add: descendants_loop.simps Let_def)
  have "\<exists>ds. getAllDescendantIds ?fs (id_of ?d) = Some ds
            \<and> set ds = {id_of f | f. f \<in> set ?fs \<and> startsWith (name f) (name ?d @ ''/'')}"
    using select_directory_propagates [OF h1 h2 h3, of Map.empty] by (rule conjunct1)
  then obtain ds where ds: "getAllDescendantIds ?fs (id_of ?d) = Some ds"
    "set ds = {id_of f | f. f \<in> set ?fs \<and> startsWith (name f) (name ?d @ ''/'')}"
    by blast
  from ds(1) g have "ds = [''a'', ''e'', ''c'', ''c'']" by simp
  with ds(2) have s: "set [''a'', ''e'', ''c'', ''c''] =
       {id_of f | f. f \<in> set ?fs \<and> startsWith (name f) (''D'' @ ''/'')}"
    by simp
  have sel: "handleRowSelection ?fs ''d'' True [''x'' \<mapsto> True]
       = Some [''x'' \<mapsto> True, ''d'' \<mapsto> True, ''a'' \<mapsto> True, ''e'' \<mapsto> True, ''c'' \<mapsto> True]"
    unfolding handleRowSelection_def g by (simp add: mark_def Let_def)
  have desel: "handleRowSelection ?fs ''d'' False
         [''x'' \<mapsto> True, ''d'' \<mapsto> True, ''a'' \<mapsto> True, ''e'' \<mapsto> True, ''c'' \<mapsto> True]
       = Some [''x'' \<mapsto> True]"
    unfolding handleRowSelection_def g by (simp add: mark_def Let_def fun_eq_iff)
  show ?thesis by (rule conjI [OF h1 conjI [OF g conjI [OF s conjI [OF sel desel]]]])
qed

section \<open>The tree materializer: lemmas\<close>

lemma traverse_preorder: "traverse items result = result @ preorder items"
proof (induction items result rule: traverse.induct)
  case (1 result)
  then show ?case by simp
next
  case (2 i n t s e l c lv items result)
  show ?case
  proof (cases "c = []")
    case True
    with 2(2) show ?thesis by simp
  next
    case False
    with 2 show ?thesis by simp
  qed
qed

lemma flattenTree_preorder: "flattenTree tree = preorder tree"
  by (simp add: flattenTree_def traverse_preorder)

lemma those_eq_Some: "those os = Some ys \<longleftrightarrow> os = map Some ys"
proof (induction os arbitrary: ys)
  case Nil
  then show ?case by auto
next
  case (Cons a os)
  show ?case
  proof (cases a)
    case None
    then show ?thesis by (cases ys) auto
  next
    case (Some y)
    show ?thesis
    proof (cases "those os")
      case None
      with Cons.IH have "os \<noteq> map Some zs" for zs by simp
      with Some None show ?thesis by (cases ys) auto
    next
      case (Some zs)
      with Cons.IH [of zs] have os: "os = map Some zs" by simp
      have "those (a # os) = Some (y # zs)" using \<open>a = Some y\<close> Some by simp
      moreover have "a # os = map Some ys \<longleftrightarrow> ys = y # zs"
        using \<open>a = Some y\<close> os by (cases ys) (auto simp: inj_map_eq_map)
      ultimately show ?thesis by auto
    qed
  qed
qed

lemma those_map_Some:
  "those (map g xs) = Some ys \<longleftrightarrow> list_all2 (\<lambda>x y. g x = Some y) xs ys"
  unfolding those_eq_Some
  by (auto simp: list_all2_conv_all_nth list_eq_iff_nth_eq)


lemma buildFileTree_Suc_iff:
  "buildFileTree st statusMap (Suc fuel) fs lvl parentPath = Some t \<longleftrightarrow>
     list_all2 (\<lambda>f node. \<exists>c. node = make_node st statusMap lvl f c \<and>
        (if opens st f then
           (case driveFiles st (id_of f) of
              None \<Rightarrow> c = []
            | Some folderData \<Rightarrow>
                buildFileTree st statusMap fuel folderData (Suc lvl) (child_path parentPath f) = Some c)
         else c = [])) fs t"
proof -
  have "(\<exists>c. y = make_node st statusMap lvl f c \<and>
        (if opens st f then
           (case driveFiles st (id_of f) of
              None \<Rightarrow> c = []
            | Some folderData \<Rightarrow>
                buildFileTree st statusMap fuel folderData (Suc lvl) (child_path parentPath f) = Some c)
         else c = []))
    \<longleftrightarrow> (let isExpanded' = (id_of f \<in> expandedFolders st);
           isLoading' = (id_of f \<in> loadingFolders st);
           children' =
             (if type_of f = Directory \<and> isExpanded' \<and> \<not> isLoading' then
                (case driveFiles st (id_of f) of
                   None \<Rightarrow> Some []
                 | Some folderData \<Rightarrow>
                     (let seg = last (split_on CHR ''/'' (name f));
                          currentPath = (if parentPath \<noteq> [] then parentPath @ ''/'' @ seg else seg)
                      in buildFileTree st statusMap fuel folderData (lvl + 1) currentPath))
              else Some []);
           kbStatus =
             (if lvl = 0 then (case statusMap of None \<Rightarrow> None | Some m \<Rightarrow> map_of m (id_of f))
              else status f)
       in map_option
            (\<lambda>c. FileItem (id_of f) (name f) (type_of f) (or_else kbStatus (status f))
                   isExpanded' isLoading' c lvl)
            children') = Some y" for f y
    by (auto simp: Let_def opens_def make_node_def child_path_def split: option.splits)
  then show ?thesis
    by (simp add: those_map_Some buildFileTree.simps(2))
qed


declare buildFileTree.simps(2) [simp del]

lemma make_node_sel [simp]:
  "id_of (make_node st statusMap lvl f c) = id_of f" "name (make_node st statusMap lvl f c) = name f"
  "type_of (make_node st statusMap lvl f c) = type_of f" "level (make_node st statusMap lvl f c) = lvl"
  "isExpanded (make_node st statusMap lvl f c) = (id_of f \<in> expandedFolders st)"
  "isLoading (make_node st statusMap lvl f c) = (id_of f \<in> loadingFolders st)"
  "children (make_node st statusMap lvl f c) = c"
  by (simp_all add: make_node_def)

lemma composed_iff:
  "composed st d fs t \<longleftrightarrow>
     list_all2 (\<lambda>f n. id_of n = id_of f \<and> name n = name f \<and> type_of n = type_of f \<and> level n = d
        \<and> isExpanded n = (id_of f \<in> expandedFolders st) \<and> isLoading n = (id_of f \<in> loadingFolders st)
        \<and> (if opens st f then
              (case driveFiles st (id_of f) of
                 None \<Rightarrow> children n = []
               | Some folderData \<Rightarrow> composed st (Suc d) folderData (children n))
            else children n = [])) fs t"
proof (induction fs arbitrary: t)
  case Nil
  then show ?case by (cases t) simp_all
next
  case (Cons f fs)
  show ?case
  proof (cases t)
    case Nil
    then show ?thesis by simp
  next
    case (Cons n ns)
    obtain i nm ty s e l c lv where n: "n = FileItem i nm ty s e l c lv" by (cases n)
    have head: "(i = id_of f \<and> nm = name f \<and> ty = type_of f \<and> lv = d
      \<and> e = (i \<in> expandedFolders st) \<and> l = (i \<in> loadingFolders st)
      \<and> (if ty = Directory \<and> i \<in> expandedFolders st \<and> i \<notin> loadingFolders st
         then (case driveFiles st i of None \<Rightarrow> c = [] | Some folderData \<Rightarrow> composed st (Suc d) folderData c)
         else c = []))
     \<longleftrightarrow> (i = id_of f \<and> nm = name f \<and> ty = type_of f \<and> lv = d
        \<and> e = (id_of f \<in> expandedFolders st) \<and> l = (id_of f \<in> loadingFolders st)
        \<and> (if opens st f then
              (case driveFiles st (id_of f) of
                 None \<Rightarrow> c = []
               | Some folderData \<Rightarrow> composed st (Suc d) folderData c)
            else c = []))"
    proof (cases "i = id_of f \<and> ty = type_of f")
      case True
      then have "i = id_of f" "ty = type_of f" by simp_all
      then show ?thesis unfolding opens_def by (simp only:)
    next
      case False
      then show ?thesis by blast
    qed
    have "composed st d (f # fs) (n # ns) \<longleftrightarrow>
      (i = id_of f \<and> nm = name f \<and> ty = type_of f \<and> lv = d
      \<and> e = (i \<in> expandedFolders st) \<and> l = (i \<in> loadingFolders st)
      \<and> (if ty = Directory \<and> i \<in> expandedFolders st \<and> i \<notin> loadingFolders st
         then (case driveFiles st i of None \<Rightarrow> c = [] | Some folderData \<Rightarrow> composed st (Suc d) folderData c)
         else c = []))
      \<and> composed st d fs ns"
      unfolding n by (simp only: composed.simps conj_assoc)
    then show ?thesis
      unfolding Cons head Cons.IH n list_all2_Cons FileItem.sel by (simp only:)
  qed
qed

lemma buildFileTree_composed:
  "buildFileTree st statusMap fuel fs lvl parentPath = Some t \<Longrightarrow> composed st lvl fs t"
proof (induction fuel arbitrary: fs lvl parentPath t)
  case 0
  then show ?case by simp
next
  case (Suc fuel)
  from Suc.prems have "list_all2 (\<lambda>f node. \<exists>c. node = make_node st statusMap lvl f c \<and>
        (if opens st f then
           (case driveFiles st (id_of f) of
              None \<Rightarrow> c = []
            | Some folderData \<Rightarrow>
                buildFileTree st statusMap fuel folderData (Suc lvl) (child_path parentPath f) = Some c)
         else c = [])) fs t"
    by (rule buildFileTree_Suc_iff [THEN iffD1])
  then have "list_all2 (\<lambda>f n. id_of n = id_of f \<and> name n = name f \<and> type_of n = type_of f \<and> level n = lvl
        \<and> isExpanded n = (id_of f \<in> expandedFolders st) \<and> isLoading n = (id_of f \<in> loadingFolders st)
        \<and> (if opens st f then
              (case driveFiles st (id_of f) of
                 None \<Rightarrow> children n = []
               | Some folderData \<Rightarrow> composed st (Suc lvl) folderData (children n))
            else children n = [])) fs t"
  proof (rule list_all2_mono)
    fix f node
    assume "\<exists>c. node = make_node st statusMap lvl f c \<and>
        (if opens st f then
           (case driveFiles st (id_of f) of
              None \<Rightarrow> c = []
            | Some folderData \<Rightarrow>
                buildFileTree st statusMap fuel folderData (Suc lvl) (child_path parentPath f) = Some c)
         else c = [])"
    then obtain c where c: "node = make_node st statusMap lvl f c"
      "if opens st f then
           (case driveFiles st (id_of f) of
              None \<Rightarrow> c = []
            | Some folderData \<Rightarrow>
                buildFileTree st statusMap fuel folderData (Suc lvl) (child_path parentPath f) = Some c)
         else c = []" by blast
    have ch: "if opens st f then
              (case driveFiles st (id_of f) of
                 None \<Rightarrow> c = []
               | Some folderData \<Rightarrow> composed st (Suc lvl) folderData c)
            else c = []"
    proof (cases "opens st f")
      case False
      with c(2) show ?thesis by simp
    next
      case True
      show ?thesis
      proof (cases "driveFiles st (id_of f)")
        case None
        with True c(2) show ?thesis by simp
      next
        case (Some folderData)
        with True c(2)
        have "buildFileTree st statusMap fuel folderData (Suc lvl) (child_path parentPath f) = Some c"
          by simp
        then have "composed st (Suc lvl) folderData c" by (rule Suc.IH)
        with True Some show ?thesis by simp
      qed
    qed
    show "id_of node = id_of f \<and> name node = name f \<and> type_of node = type_of f \<and> level node = lvl
        \<and> isExpanded node = (id_of f \<in> expandedFolders st) \<and> isLoading node = (id_of f \<in> loadingFolders st)
        \<and> (if opens st f then
              (case driveFiles st (id_of f) of
                 None \<Rightarrow> children node = []
               | Some folderData \<Rightarrow> composed st (Suc lvl) folderData (children node))
            else children node = [])"
      using ch unfolding c(1) by (simp split: option.splits)
  qed
  then show ?case by (rule composed_iff [THEN iffD2])
qed

lemma buildFileTree_more_fuel:
  "buildFileTree st statusMap fuel fs lvl parentPath = Some t \<Longrightarrow>
   buildFileTree st statusMap (Suc fuel) fs lvl parentPath = Some t"
proof (induction fuel arbitrary: fs lvl parentPath t)
  case 0
  then show ?case by simp
next
  case (Suc fuel)
  from Suc.prems have "list_all2 (\<lambda>f node. \<exists>c. node = make_node st statusMap lvl f c \<and>
        (if opens st f then
           (case driveFiles st (id_of f) of
              None \<Rightarrow> c = []
            | Some folderData \<Rightarrow>
                buildFileTree st statusMap fuel folderData (Suc lvl) (child_path parentPath f) = Some c)
         else c = [])) fs t"
    by (rule buildFileTree_Suc_iff [THEN iffD1])
  then have "list_all2 (\<lambda>f node. \<exists>c. node = make_node st statusMap lvl f c \<and>
        (if opens st f then
           (case driveFiles st (id_of f) of
              None \<Rightarrow> c = []
            | Some folderData \<Rightarrow>
                buildFileTree st statusMap (Suc fuel) folderData (Suc lvl) (child_path parentPath f) = Some c)
         else c = [])) fs t"
  proof (rule list_all2_mono)
    fix f node
    assume "\<exists>c. node = make_node st statusMap lvl f c \<and>
        (if opens st f then
           (case driveFiles st (id_of f) of
              None \<Rightarrow> c = []
            | Some folderData \<Rightarrow>
                buildFileTree st statusMap fuel folderData (Suc lvl) (child_path parentPath f) = Some c)
         else c = [])"
    then obtain c where c: "node = make_node st statusMap lvl f c"
      "if opens st f then
           (case driveFiles st (id_of f) of
              None \<Rightarrow> c = []
            | Some folderData \<Rightarrow>
                buildFileTree st statusMap fuel folderData (Suc lvl) (child_path parentPath f) = Some c)
         else c = []" by blast
    have "if opens st f then
           (case driveFiles st (id_of f) of
              None \<Rightarrow> c = []
            | Some folderData \<Rightarrow>
                buildFileTree st statusMap (Suc fuel) folderData (Suc lvl) (child_path parentPath f) = Some c)
         else c = []"
    proof (cases "opens st f")
      case False
      with c(2) show ?thesis by simp
    next
      case True
      show ?thesis
      proof (cases "driveFiles st (id_of f)")
        case None
        with True c(2) show ?thesis by simp
      next
        case (Some folderData)
        with True c(2)
        have "buildFileTree st statusMap fuel folderData (Suc lvl) (child_path parentPath f) = Some c"
          by simp
        then have "buildFileTree st statusMap (Suc fuel) folderData (Suc lvl) (child_path parentPath f) = Some c"
          by (rule Suc.IH)
        with True Some show ?thesis by simp
      qed
    qed
    with c(1) show "\<exists>c. node = make_node st statusMap lvl f c \<and>
        (if opens st f then
           (case driveFiles st (id_of f) of
              None \<Rightarrow> c = []
            | Some folderData \<Rightarrow>
                buildFileTree st statusMap (Suc fuel) folderData (Suc lvl) (child_path parentPath f) = Some c)
         else c = [])" by blast
  qed
  then show ?case by (blast intro: buildFileTree_Suc_iff [THEN iffD2])
qed

lemma buildFileTree_fuel_mono:
  "buildFileTree st statusMap fuel fs lvl parentPath = Some t \<Longrightarrow>
   buildFileTree st statusMap (fuel + k) fs lvl parentPath = Some t"
  by (induction k) (simp_all add: buildFileTree_more_fuel)

lemma buildFileTree_enough_fuel:
  assumes wf: "\<And>d frag c. d \<in> expandedFolders st \<Longrightarrow> d \<notin> loadingFolders st \<Longrightarrow>
      driveFiles st d = Some frag \<Longrightarrow> c \<in> set frag \<Longrightarrow> rank (id_of c) < rank d"
  shows "\<forall>f \<in> set fs. rank (id_of f) < n \<Longrightarrow>
         \<exists>t. buildFileTree st statusMap (Suc n) fs lvl parentPath = Some t"
proof (induction n arbitrary: fs lvl parentPath)
  case 0
  then have "fs = []" by (cases fs) auto
  then show ?case by (simp add: buildFileTree_Suc_iff)
next
  case (Suc n)
  have "\<exists>node. \<exists>c. node = make_node st statusMap lvl f c \<and>
        (if opens st f then
           (case driveFiles st (id_of f) of
              None \<Rightarrow> c = []
            | Some folderData \<Rightarrow>
                buildFileTree st statusMap (Suc n) folderData (Suc lvl) (child_path parentPath f) = Some c)
         else c = [])" if f: "f \<in> set fs" for f
  proof (cases "opens st f")
    case False
    then show ?thesis by simp
  next
    case True
    show ?thesis
    proof (cases "driveFiles st (id_of f)")
      case None
      with True show ?thesis by simp
    next
      case (Some folderData)
      from f Suc.prems have "rank (id_of f) < Suc n" by blast
      moreover have "rank (id_of c) < rank (id_of f)" if "c \<in> set folderData" for c
        using wf [of "id_of f" folderData c] True Some that by (simp add: opens_def)
      ultimately have "\<forall>c \<in> set folderData. rank (id_of c) < n"
        by (metis less_Suc_eq_le less_le_trans)
      from Suc.IH [OF this]
      obtain c where "buildFileTree st statusMap (Suc n) folderData (Suc lvl) (child_path parentPath f) = Some c"
        by blast
      with True Some show ?thesis by simp
    qed
  qed
  then have "\<forall>f \<in> set fs. \<exists>node. (\<lambda>f node. \<exists>c. node = make_node st statusMap lvl f c \<and>
        (if opens st f then
           (case driveFiles st (id_of f) of
              None \<Rightarrow> c = []
            | Some folderData \<Rightarrow>
                buildFileTree st statusMap (Suc n) folderData (Suc lvl) (child_path parentPath f) = Some c)
         else c = [])) f node"
    by blast
  then have "\<exists>t. list_all2 (\<lambda>f node. \<exists>c. node = make_node st statusMap lvl f c \<and>
        (if opens st f then
           (case driveFiles st (id_of f) of
              None \<Rightarrow> c = []
            | Some folderData \<Rightarrow>
                buildFileTree st statusMap (Suc n) folderData (Suc lvl) (child_path parentPath f) = Some c)
         else c = [])) fs t"
  proof (induction fs)
    case Nil
    then show ?case by simp
  next
    case (Cons a fs)
    then obtain t where "list_all2 (\<lambda>f node. \<exists>c. node = make_node st statusMap lvl f c \<and>
        (if opens st f then
           (case driveFiles st (id_of f) of
              None \<Rightarrow> c = []
            | Some folderData \<Rightarrow>
                buildFileTree st statusMap (Suc n) folderData (Suc lvl) (child_path parentPath f) = Some c)
         else c = [])) fs t" by auto
    moreover from Cons.prems obtain node where "\<exists>c. node = make_node st statusMap lvl a c \<and>
        (if opens st a then
           (case driveFiles st (id_of a) of
              None \<Rightarrow> c = []
            | Some folderData \<Rightarrow>
                buildFileTree st statusMap (Suc n) folderData (Suc lvl) (child_path parentPath a) = Some c)
         else c = [])" by auto
    ultimately show ?case by (intro exI [of _ "node # t"]) simp
  qed
  then show ?case by (blast intro: buildFileTree_Suc_iff [THEN iffD2])
qed

text \<open>
  C9. Whenever the materializer returns rows for a root fragment, they are the pre-order
  sequence of a tree that composes the root fragment at depth 0: one node per entry, in
  order, whose level is its depth, whose children compose the cached fragment of the
  entry one level deeper exactly when the entry is an expanded directory that is not
  loading, and are empty otherwise. More recursion depth gives the same rows. The
  materializer does return when the cache is well-founded below the expanded
  directories (some rank decreases from a directory to the entries of its fragment), and
  without root data it returns no rows.
\<close>

theorem flatFiles_preorder_of_composed_tree:
  fixes rank :: "string \<Rightarrow> nat"
  shows "(flatFiles st statusMap fuel (Some root) = Some rows \<longrightarrow>
       (\<exists>tree. buildFileTree st statusMap fuel root 0 [] = Some tree
               \<and> composed st 0 root tree \<and> rows = preorder tree)
       \<and> flatFiles st statusMap (fuel + k) (Some root) = Some rows)
   \<and> ((\<forall>d frag c. d \<in> expandedFolders st \<and> d \<notin> loadingFolders st
                   \<and> driveFiles st d = Some frag \<and> c \<in> set frag
           \<longrightarrow> rank (id_of c) < rank d)
        \<longrightarrow> (\<exists>fuel rows. flatFiles st statusMap fuel (Some root) = Some rows))
   \<and> flatFiles st statusMap fuel None = Some []"
proof -
  have c1: "flatFiles st statusMap fuel (Some root) = Some rows \<longrightarrow>
       (\<exists>tree. buildFileTree st statusMap fuel root 0 [] = Some tree
               \<and> composed st 0 root tree \<and> rows = preorder tree)
       \<and> flatFiles st statusMap (fuel + k) (Some root) = Some rows"
  proof
    assume "flatFiles st statusMap fuel (Some root) = Some rows"
    then obtain tree where t: "buildFileTree st statusMap fuel root 0 [] = Some tree" "rows = flattenTree tree"
      by (auto simp: flatFiles_def)
    from t(1) have "composed st 0 root tree" by (rule buildFileTree_composed)
    moreover from t(1) have "buildFileTree st statusMap (fuel + k) root 0 [] = Some tree"
      by (rule buildFileTree_fuel_mono)
    then have "flatFiles st statusMap (fuel + k) (Some root) = Some rows"
      using t(2) by (simp add: flatFiles_def)
    ultimately show "(\<exists>tree. buildFileTree st statusMap fuel root 0 [] = Some tree
               \<and> composed st 0 root tree \<and> rows = preorder tree)
       \<and> flatFiles st statusMap (fuel + k) (Some root) = Some rows"
      using t by (auto simp: flattenTree_preorder)
  qed
  have c2: "(\<forall>d frag c. d \<in> expandedFolders st \<and> d \<notin> loadingFolders st
                   \<and> driveFiles st d = Some frag \<and> c \<in> set frag
           \<longrightarrow> rank (id_of c) < rank d)
        \<longrightarrow> (\<exists>fuel rows. flatFiles st statusMap fuel (Some root) = Some rows)"
  proof
    assume a: "\<forall>d frag c. d \<in> expandedFolders st \<and> d \<notin> loadingFolders st
                   \<and> driveFiles st d = Some frag \<and> c \<in> set frag
           \<longrightarrow> rank (id_of c) < rank d"
    define n where "n = Suc (sum_list (map (\<lambda>f. rank (id_of f)) root))"
    have "rank (id_of f) < n" if "f \<in> set root" for f
    proof -
      from that have "rank (id_of f) \<le> sum_list (map (\<lambda>f. rank (id_of f)) root)"
        by (induction root) auto
      then show ?thesis by (simp add: n_def)
    qed
    then have "\<forall>f \<in> set root. rank (id_of f) < n" by blast
    with a obtain t where "buildFileTree st statusMap (Suc n) root 0 [] = Some t"
      using buildFileTree_enough_fuel [of st rank root n statusMap 0 "[]"] by blast
    then have "flatFiles st statusMap (Suc n) (Some root) = Some (flattenTree t)"
      by (simp add: flatFiles_def)
    then show "\<exists>fuel rows. flatFiles st statusMap fuel (Some root) = Some rows" by blast
  qed
  have c3: "flatFiles st statusMap fuel None = Some []" by (simp add: flatFiles_def)
  show ?thesis by (rule conjI [OF c1 conjI [OF c2 c3]])
qed

theorem flatFiles_preorder_of_composed_tree_witness:
  "flatFiles
      \<lparr>expandedFolders = {''d'', ''e''}, loadingFolders = {''g''}, errorToastShown = {},
       driveFiles = [''d'' \<mapsto> [FileItem ''a'' ''D/a'' File (Some ''indexed'') False False [] 0,
                              FileItem ''e'' ''D/E'' Directory None False False [] 0,
                              FileItem ''g'' ''D/G'' Directory None False False [] 0],
                     ''e'' \<mapsto> [FileItem ''c'' ''D/E/c'' File (Some ''pending'') False False [] 0],
                     ''g'' \<mapsto> [FileItem ''h'' ''D/G/h'' File None False False [] 0]],
       toasts = []\<rparr>
      (Some [(''x'', ''indexed'')]) (Suc (Suc (Suc 0)))
      (Some [FileItem ''d'' ''D'' Directory None False False [] 0,
       FileItem ''x'' ''X'' File None False False [] 0])
   = Some [FileItem ''d'' ''D'' Directory None True False
          [FileItem ''a'' ''D/a'' File (Some ''indexed'') False False [] 1,
           FileItem ''e'' ''D/E'' Directory None True False
             [FileItem ''c'' ''D/E/c'' File (Some ''pending'') False False [] 2] 1,
           FileItem ''g'' ''D/G'' Directory None False True [] 1] 0,
        FileItem ''a'' ''D/a'' File (Some ''indexed'') False False [] 1,
        FileItem ''e'' ''D/E'' Directory None True False
          [FileItem ''c'' ''D/E/c'' File (Some ''pending'') False False [] 2] 1,
        FileItem ''c'' ''D/E/c'' File (Some ''pending'') False False [] 2,
        FileItem ''g'' ''D/G'' Directory None False True [] 1,
        FileItem ''x'' ''X'' File (Some ''indexed'') False False [] 0]
   \<and> (\<exists>tree. composed
      \<lparr>expandedFolders = {''d'', ''e''}, loadingFolders = {''g''}, errorToastShown = {},
       driveFiles = [''d'' \<mapsto> [FileItem ''a'' ''D/a'' File (Some ''indexed'') False False [] 0,
                              FileItem ''e'' ''D/E'' Directory None False False [] 0,
                              FileItem ''g'' ''D/G'' Directory None False False [] 0],
                     ''e'' \<mapsto> [FileItem ''c'' ''D/E/c'' File (Some ''pending'') False False [] 0],
                     ''g'' \<mapsto> [FileItem ''h'' ''D/G/h'' File None False False [] 0]],
       toasts = []\<rparr> 0
      [FileItem ''d'' ''D'' Directory None False False [] 0,
       FileItem ''x'' ''X'' File None False False [] 0] tree
      \<and> [FileItem ''d'' ''D'' Directory None True False
          [FileItem ''a'' ''D/a'' File (Some ''indexed'') False False [] 1,
           FileItem ''e'' ''D/E'' Directory None True False
             [FileItem ''c'' ''D/E/c'' File (Some ''pending'') False False [] 2] 1,
           FileItem ''g'' ''D/G'' Directory None False True [] 1] 0,
        FileItem ''a'' ''D/a'' File (Some ''indexed'') False False [] 1,
        FileItem ''e'' ''D/E'' Directory None True False
          [FileItem ''c'' ''D/E/c'' File (Some ''pending'') False False [] 2] 1,
        FileItem ''c'' ''D/E/c'' File (Some ''pending'') False False [] 2,
        FileItem ''g'' ''D/G'' Directory None False True [] 1,
        FileItem ''x'' ''X'' File (Some ''indexed'') False False [] 0] = preorder tree)
   \<and> (\<exists>fuel rows. flatFiles
      \<lparr>expandedFolders = {''d'', ''e''}, loadingFolders = {''g''}, errorToastShown = {},
       driveFiles = [''d'' \<mapsto> [FileItem ''a'' ''D/a'' File (Some ''indexed'') False False [] 0,
                              FileItem ''e'' ''D/E'' Directory None False False [] 0,
                              FileItem ''g'' ''D/G'' Directory None False False [] 0],
                     ''e'' \<mapsto> [FileItem ''c'' ''D/E/c'' File (Some ''pending'') False False [] 0],
                     ''g'' \<mapsto> [FileItem ''h'' ''D/G/h'' File None False False [] 0]],
       toasts = []\<rparr>
      (Some [(''x'', ''indexed'')]) fuel
      (Some [FileItem ''d'' ''D'' Directory None False False [] 0,
       FileItem ''x'' ''X'' File None False False [] 0])
      = Some rows)"
proof -
  let ?st = "\<lparr>expandedFolders = {''d'', ''e''}, loadingFolders = {''g''}, errorToastShown = {},
       driveFiles = [''d'' \<mapsto> [FileItem ''a'' ''D/a'' File (Some ''indexed'') False False [] 0,
                              FileItem ''e'' ''D/E'' Directory None False False [] 0,
                              FileItem ''g'' ''D/G'' Directory None False False [] 0],
                     ''e'' \<mapsto> [FileItem ''c'' ''D/E/c'' File (Some ''pending'') False False [] 0],
                     ''g'' \<mapsto> [FileItem ''h'' ''D/G/h'' File None False False [] 0]],
       toasts = []\<rparr>"
  let ?root = "[FileItem ''d'' ''D'' Directory None False False [] 0,
       FileItem ''x'' ''X'' File None False False [] 0]"
  let ?rows = "[FileItem ''d'' ''D'' Directory None True False
          [FileItem ''a'' ''D/a'' File (Some ''indexed'') False False [] 1,
           FileItem ''e'' ''D/E'' Directory None True False
             [FileItem ''c'' ''D/E/c'' File (Some ''pending'') False False [] 2] 1,
           FileItem ''g'' ''D/G'' Directory None False True [] 1] 0,
        FileItem ''a'' ''D/a'' File (Some ''indexed'') False False [] 1,
        FileItem ''e'' ''D/E'' Directory None True False
          [FileItem ''c'' ''D/E/c'' File (Some ''pending'') False False [] 2] 1,
        FileItem ''c'' ''D/E/c'' File (Some ''pending'') False False [] 2,
        FileItem ''g'' ''D/G'' Directory None False True [] 1,
        FileItem ''x'' ''X'' File (Some ''indexed'') False False [] 0]"
  let ?rank = "\<lambda>i. if i = ''d'' then 2 else if i = ''e'' \<or> i = ''g'' then 1 else (0::nat)"
  have ev: "flatFiles ?st (Some [(''x'', ''indexed'')]) (Suc (Suc (Suc 0))) (Some ?root) = Some ?rows"
    by (simp add: flatFiles_def buildFileTree.simps Let_def or_else_def flattenTree_def)
  note inst = flatFiles_preorder_of_composed_tree [of ?st "Some [(''x'', ''indexed'')]" "Suc (Suc (Suc 0))"
      ?root ?rows 0 ?rank]
  from inst have "flatFiles ?st (Some [(''x'', ''indexed'')]) (Suc (Suc (Suc 0))) (Some ?root) = Some ?rows \<longrightarrow>
       (\<exists>tree. buildFileTree ?st (Some [(''x'', ''indexed'')]) (Suc (Suc (Suc 0))) ?root 0 [] = Some tree
               \<and> composed ?st 0 ?root tree \<and> ?rows = preorder tree)
       \<and> flatFiles ?st (Some [(''x'', ''indexed'')]) (Suc (Suc (Suc 0)) + 0) (Some ?root) = Some ?rows"
    by (rule conjunct1)
  from this ev have "(\<exists>tree. buildFileTree ?st (Some [(''x'', ''indexed'')]) (Suc (Suc (Suc 0))) ?root 0 [] = Some tree
               \<and> composed ?st 0 ?root tree \<and> ?rows = preorder tree)
       \<and> flatFiles ?st (Some [(''x'', ''indexed'')]) (Suc (Suc (Suc 0)) + 0) (Some ?root) = Some ?rows"
    by (rule mp)
  then obtain tree where "composed ?st 0 ?root tree" "?rows = preorder tree"
    by blast
  then have c: "\<exists>tree. composed ?st 0 ?root tree \<and> ?rows = preorder tree"
    by blast
  have r: "\<forall>d frag c. d \<in> expandedFolders ?st \<and> d \<notin> loadingFolders ?st
                   \<and> driveFiles ?st d = Some frag \<and> c \<in> set frag
           \<longrightarrow> ?rank (id_of c) < ?rank d"
    by auto
  from inst have "(\<forall>d frag c. d \<in> expandedFolders ?st \<and> d \<notin> loadingFolders ?st
                   \<and> driveFiles ?st d = Some frag \<and> c \<in> set frag
           \<longrightarrow> ?rank (id_of c) < ?rank d)
        \<longrightarrow> (\<exists>fuel rows. flatFiles ?st (Some [(''x'', ''indexed'')]) fuel (Some ?root) = Some rows)"
    by (elim conjE)
  from this r have t: "\<exists>fuel rows. flatFiles ?st (Some [(''x'', ''indexed'')]) fuel (Some ?root) = Some rows"
    by (rule mp)
  show ?thesis by (rule conjI [OF ev conjI [OF c t]])
qed

end
